theory Spec2Isabelle
  imports Complex_Main "HOL-Library.Product_Lexorder" "HOL-Library.Multiset"
begin

section \<open>OMR scanner: the recognition and scoring pipeline of \<open>omr_core.py\<close>\<close>

text \<open>
  The development follows the source function by function. What the image library
  computes (grey conversion, adaptive threshold, external contours, bounding rectangles,
  filled contour masks) is data of the model: a sheet is given by its binary mask and the
  contours found on it. Everything \<open>omr_core.py\<close> itself computes from these is
  translated below.
\<close>

subsection \<open>Data\<close>

text \<open>
  A contour, as far as the program looks at it: its bounding rectangle
  \<open>(x, y, w, h)\<close> (\<open>cv2.boundingRect\<close>) and the pixels that
  \<open>cv2.drawContours\<close> with thickness \<open>-1\<close> paints for it.
\<close>

record contour =
  cx :: int
  cy :: int
  cw :: int
  ch :: int
  region :: "(int \<times> int) list"

text \<open>The binary mask \<open>thresh\<close>: a pixel is foreground when its value is not zero.\<close>

type_synonym mask = "int \<times> int \<Rightarrow> bool"

datatype error = ZeroDivisionError | CvError

text \<open>One line of \<open>results_data\<close>: \<open>[q_num, student_answer, correct_answer, status]\<close>.\<close>

record row =
  q_num :: nat
  student_answer :: string
  correct_answer :: string
  status :: string

subsection \<open>Scorer (lines 98 to 111 of \<open>score_omr_sheets\<close>)\<close>

text \<open>\<open>d.get(k, default)\<close> on a dictionary with string values.\<close>

definition dict_get :: "(nat \<rightharpoonup> string) \<Rightarrow> nat \<Rightarrow> string \<Rightarrow> string" where
  "dict_get d k dflt = (case d k of None \<Rightarrow> dflt | Some v \<Rightarrow> v)"

text \<open>The body of \<open>for q_num in range(1, 101)\<close>, on the pair \<open>(score, results_data)\<close>.\<close>

definition score_step ::
  "(nat \<rightharpoonup> string) \<Rightarrow> (nat \<rightharpoonup> string) \<Rightarrow> nat \<Rightarrow> nat \<times> row list \<Rightarrow> nat \<times> row list" where
  "score_step answer_key student_answers q acc =
     (let correct = dict_get answer_key q ''N/A'';
          student = dict_get student_answers q ''Unanswered'';
          (st, score') =
             (if student \<noteq> ''Unanswered''
              then (if student = correct then (''Correct'', fst acc + 1)
                    else (''Incorrect'', fst acc))
              else (''Unanswered'', fst acc))
      in (score', snd acc @ [\<lparr>q_num = q, student_answer = student,
                               correct_answer = correct, status = st\<rparr>]))"

fun score_loop ::
  "(nat \<rightharpoonup> string) \<Rightarrow> (nat \<rightharpoonup> string) \<Rightarrow> nat list \<Rightarrow> nat \<times> row list \<Rightarrow> nat \<times> row list" where
  "score_loop answer_key student_answers [] acc = acc"
| "score_loop answer_key student_answers (q # qs) acc =
     score_loop answer_key student_answers qs (score_step answer_key student_answers q acc)"

definition score_sheet :: "(nat \<rightharpoonup> string) \<Rightarrow> (nat \<rightharpoonup> string) \<Rightarrow> nat \<times> row list" where
  "score_sheet answer_key student_answers =
     score_loop answer_key student_answers [1..<101] (0, [])"

text \<open>The row the status rule of the specification prescribes for one question.\<close>

definition row_of :: "(nat \<rightharpoonup> string) \<Rightarrow> (nat \<rightharpoonup> string) \<Rightarrow> nat \<Rightarrow> row" where
  "row_of answer_key student_answers q =
     \<lparr>q_num = q,
      student_answer = dict_get student_answers q ''Unanswered'',
      correct_answer = dict_get answer_key q ''N/A'',
      status = (case student_answers q of
                  None \<Rightarrow> ''Unanswered''
                | Some s \<Rightarrow> if answer_key q = Some s then ''Correct'' else ''Incorrect'')\<rparr>"

text \<open>
  A Student Response or an Answer Key of the data model: every value is a single
  letter (a string of length one), as the Mark Selector and the Answer Key Reader
  produce them.
\<close>

definition letters_only :: "(nat \<rightharpoonup> string) \<Rightarrow> bool" where
  "letters_only d = (\<forall>q s. d q = Some s \<longrightarrow> length s = 1)"

subsection \<open>Region Detector and Grid Orderer (\<open>find_and_sort_bubbles\<close>)\<close>

text \<open>
  The aspect ratio \<open>ar = w / float(h)\<close> and the band width are floating-point numbers
  in the source. They are modelled by exact rationals. For bounding rectangles of an
  image the comparisons and the truncation give the same result in both: the inputs are
  integers below \<open>2^31\<close>, a quotient of two such integers that differs from \<open>0.8\<close>,
  from \<open>1.3\<close> or from an integer differs by more than \<open>2^-34\<close>, and rounding to
  double precision is monotone and moves a value by a relative \<open>2^-53\<close> at most.
  The division by a zero height raises \<open>ZeroDivisionError\<close> before the test.
\<close>

definition aspect_ok :: "contour \<Rightarrow> bool" where
  "aspect_ok c =
     (let ar = (of_int (cw c) :: rat) / of_int (ch c)
      in cw c \<ge> 20 \<and> ch c \<ge> 20 \<and> ar \<ge> 8 / 10 \<and> ar \<le> 13 / 10)"

text \<open>The loop \<open>for c in cnts\<close> that fills \<open>question_cnts\<close>.\<close>

fun filter_cnts :: "contour list \<Rightarrow> contour list \<Rightarrow> error + contour list" where
  "filter_cnts [] question_cnts = Inr question_cnts"
| "filter_cnts (c # cs) question_cnts =
     (if ch c = 0 then Inl ZeroDivisionError
      else filter_cnts cs (if aspect_ok c then question_cnts @ [c] else question_cnts))"

text \<open>\<open>int(r)\<close> on a float: truncation towards zero.\<close>

definition py_int :: "rat \<Rightarrow> int" where
  "py_int r = (if r \<ge> 0 then \<lfloor>r\<rfloor> else \<lceil>r\<rceil>)"

text \<open>
  \<open>get_col\<close>, with the variables it closes over as arguments: \<open>min_x\<close> is
  \<open>min(x_coords)\<close>. Dividing by a zero \<open>col_width\<close> raises.
\<close>

definition get_col :: "int \<Rightarrow> rat \<Rightarrow> int \<Rightarrow> error + int" where
  "get_col min_x col_width x =
     (if col_width = 0 then Inl ZeroDivisionError
      else Inr (min 4 (py_int (of_int (x - min_x) / col_width))))"

text \<open>
  \<open>sorted(xs, key=f)\<close> for a key function that may raise: the keys are computed
  first, in order, and the first exception leaves the call; then the elements are
  sorted by their keys, stably.
\<close>

fun keys_of :: "('a \<Rightarrow> error + 'k) \<Rightarrow> 'a list \<Rightarrow> error + 'k list" where
  "keys_of f [] = Inr []"
| "keys_of f (x # xs) =
     (case f x of
        Inl e \<Rightarrow> Inl e
      | Inr k \<Rightarrow> (case keys_of f xs of Inl e \<Rightarrow> Inl e | Inr ks \<Rightarrow> Inr (k # ks)))"

definition sorted_by :: "('a \<Rightarrow> error + ('k :: linorder)) \<Rightarrow> 'a list \<Rightarrow> error + 'a list" where
  "sorted_by f xs =
     (case keys_of f xs of
        Inl e \<Rightarrow> Inl e
      | Inr ks \<Rightarrow> Inr (map snd (sort_key fst (zip ks xs))))"

text \<open>The key of the second sort: \<open>(get_col(x), y)\<close>.\<close>

definition col_key :: "int \<Rightarrow> rat \<Rightarrow> contour \<Rightarrow> error + int \<times> int" where
  "col_key min_x col_width c =
     (case get_col min_x col_width (cx c) of
        Inl e \<Rightarrow> Inl e
      | Inr b \<Rightarrow> Inr (b, cy c))"

text \<open>
  Lines 39 to 48: the Grid Orderer, on the filtered candidates. \<open>max\<close> and \<open>min\<close>
  are taken of more than 100 numbers, so they do not fail.
\<close>

definition grid_order :: "contour list \<Rightarrow> error + contour list" where
  "grid_order question_cnts =
     (let sorted1 = sort_key (\<lambda>c. (cx c, cy c)) question_cnts
      in if length sorted1 > 100
         then (let x_coords = map cx sorted1;
                   col_width = (of_int (Max (set x_coords) - Min (set x_coords)) :: rat) / 5
               in sorted_by (col_key (Min (set x_coords)) col_width) sorted1)
         else Inr sorted1)"

definition find_and_sort_bubbles :: "contour list \<Rightarrow> error + contour list" where
  "find_and_sort_bubbles cnts =
     (case filter_cnts cnts [] of
        Inl e \<Rightarrow> Inl e
      | Inr question_cnts \<Rightarrow> grid_order question_cnts)"

text \<open>
  The band of the specification: the horizontal span from \<open>min_x\<close> to \<open>max_x\<close> is
  cut into five bands of equal width, and the last band takes what lies beyond.
\<close>

definition band :: "int \<Rightarrow> int \<Rightarrow> int \<Rightarrow> int" where
  "band min_x max_x x =
     min 4 \<lfloor>(of_int (x - min_x) :: rat) / (of_int (max_x - min_x) / 5)\<rfloor>"

subsection \<open>Mark Selector (\<open>extract_student_answers\<close>)\<close>

text \<open>
  \<open>total\<close>: the number of non-zero pixels of \<open>thresh\<close> under the filled mask of
  the contour.
\<close>

definition total_of :: "mask \<Rightarrow> contour \<Rightarrow> nat" where
  "total_of thresh c = length (filter thresh (remdups (region c)))"

text \<open>The inner loop \<open>for j, c in enumerate(row_cnts)\<close>, on \<open>bubbled\<close>.\<close>

fun select_bubbled ::
  "mask \<Rightarrow> contour list \<Rightarrow> nat \<Rightarrow> (nat \<times> nat) option \<Rightarrow> (nat \<times> nat) option" where
  "select_bubbled thresh [] j bubbled = bubbled"
| "select_bubbled thresh (c # cs) j bubbled =
     (let total = total_of thresh c
      in select_bubbled thresh cs (j + 1)
           (case bubbled of
              None \<Rightarrow> Some (total, j)
            | Some (best, k) \<Rightarrow> if total > best then Some (total, j) else bubbled))"

text \<open>\<open>xs[a:b]\<close> for \<open>0 \<le> a \<le> b\<close>.\<close>

definition slice :: "'a list \<Rightarrow> nat \<Rightarrow> nat \<Rightarrow> 'a list" where
  "slice xs a b = take (b - a) (drop a xs)"

text \<open>\<open>chr(ord('A') + j)\<close>, as a string of one character.\<close>

definition letter :: "nat \<Rightarrow> string" where
  "letter j = [char_of (of_char CHR ''A'' + j)]"

text \<open>The body of \<open>for i in range(num_questions)\<close>, on \<open>student_answers\<close>.\<close>

definition question_step ::
  "contour list \<Rightarrow> mask \<Rightarrow> nat \<Rightarrow> (nat \<rightharpoonup> string) \<Rightarrow> (nat \<rightharpoonup> string)" where
  "question_step question_cnts thresh i student_answers =
     (let start_index = i * 4;
          end_index = start_index + 4;
          row_cnts = sort_key cx (slice question_cnts start_index end_index)
      in case select_bubbled thresh row_cnts 0 None of
           None \<Rightarrow> student_answers
         | Some (best, j) \<Rightarrow>
             if best > 150 then student_answers(i + 1 \<mapsto> letter j) else student_answers)"

definition extract_student_answers :: "contour list \<Rightarrow> mask \<Rightarrow> (nat \<rightharpoonup> string)" where
  "extract_student_answers question_cnts thresh =
     (let num_questions = length question_cnts div 4
      in fold (question_step question_cnts thresh) [0..<num_questions] Map.empty)"

text \<open>
  The decision rule in the words of the specification: the group of question \<open>i\<close>
  (counted from 0) is the \<open>i\<close>-th run of four candidates, sorted by horizontal
  position; the selected option is the first position that holds the maximum count,
  provided the maximum exceeds 150.
\<close>

definition group_of :: "contour list \<Rightarrow> nat \<Rightarrow> contour list" where
  "group_of question_cnts i = sort_key cx (take 4 (drop (4 * i) question_cnts))"

fun index_of :: "'a \<Rightarrow> 'a list \<Rightarrow> nat" where
  "index_of x [] = 0"
| "index_of x (y # ys) = (if x = y then 0 else Suc (index_of x ys))"

definition selected :: "nat list \<Rightarrow> nat option" where
  "selected totals =
     (if Max (set totals) > 150 then Some (index_of (Max (set totals)) totals) else None)"

subsection \<open>Answer Key Reader (\<open>parse_answer_key\<close>)\<close>

text \<open>
  The pattern is \<open>(\d+)\s*[-.\s]\s*([a-d])\<close>, searched with \<open>re.IGNORECASE\<close>.
  A character of the model is a code point below 256; among these \<open>\d\<close> matches the
  ten ASCII digits, \<open>\s\<close> matches the code points 9 to 13, 28 to 32, 133 and 160, and
  \<open>[a-d]\<close> without regard to case matches the eight letters \<open>a\<close> to \<open>d\<close> and
  \<open>A\<close> to \<open>D\<close>.
\<close>

definition is_digit :: "char \<Rightarrow> bool" where
  "is_digit c = (c \<in> set ''0123456789'')"

definition is_space :: "char \<Rightarrow> bool" where
  "is_space c =
     (let n = (of_char c :: nat)
      in (9 \<le> n \<and> n \<le> 13) \<or> (28 \<le> n \<and> n \<le> 32) \<or> n = 133 \<or> n = 160)"

definition is_sep :: "char \<Rightarrow> bool" where
  "is_sep c = (c = CHR ''-'' \<or> c = CHR ''.'' \<or> is_space c)"

definition is_ad :: "char \<Rightarrow> bool" where
  "is_ad c = (c \<in> set ''abcdABCD'')"

text \<open>
  The matcher is the backtracking search of the regular-expression engine, written as
  lists of successes in the order the engine tries them: a greedy repetition offers its
  longest match first. Each success is the matched text and the rest of the input.
\<close>

fun many :: "(char \<Rightarrow> bool) \<Rightarrow> string \<Rightarrow> (string \<times> string) list" where
  "many cls [] = [([], [])]"
| "many cls (c # cs) =
     (if cls c then map (\<lambda>(m, r). (c # m, r)) (many cls cs) @ [([], c # cs)]
      else [([], c # cs)])"

definition many1 :: "(char \<Rightarrow> bool) \<Rightarrow> string \<Rightarrow> (string \<times> string) list" where
  "many1 cls s = filter (\<lambda>(m, r). m \<noteq> []) (many cls s)"

fun one :: "(char \<Rightarrow> bool) \<Rightarrow> string \<Rightarrow> (char \<times> string) list" where
  "one cls [] = []"
| "one cls (c # cs) = (if cls c then [(c, cs)] else [])"

text \<open>All matches of the pattern at the start of \<open>s\<close>, as \<open>(group 1, group 2)\<close>.\<close>

definition match_at :: "string \<Rightarrow> (string \<times> char) list" where
  "match_at s =
     [(digits, l).
        (digits, r1) \<leftarrow> many1 is_digit s,
        (w1, r2) \<leftarrow> many is_space r1,
        (sep, r3) \<leftarrow> one is_sep r2,
        (w2, r4) \<leftarrow> many is_space r3,
        (l, r5) \<leftarrow> one is_ad r4]"

text \<open>\<open>re.search\<close>: the first match at the leftmost position that has one.\<close>

fun re_search :: "string \<Rightarrow> (string \<times> char) option" where
  "re_search [] = None"
| "re_search (c # cs) =
     (case match_at (c # cs) of
        m # _ \<Rightarrow> Some m
      | [] \<Rightarrow> re_search cs)"

text \<open>
  \<open>int(s)\<close> on a string of ASCII digits, and \<open>upper()\<close> on one ASCII letter
  (group 2 is one of the eight letters above).
\<close>

definition int_of_digits :: "string \<Rightarrow> nat" where
  "int_of_digits s = foldl (\<lambda>n c. 10 * n + (of_char c - of_char CHR ''0'')) 0 s"

definition upper :: "char \<Rightarrow> string" where
  "upper c =
     (let n = (of_char c :: nat)
      in if 97 \<le> n \<and> n \<le> 122 then [char_of (n - 32)] else [c])"

text \<open>
  \<open>int(s)\<close> refuses a string of more than 4300 digits (the default of
  \<open>sys.set_int_max_str_digits\<close>) with a \<open>ValueError\<close>; leading zeros count. The
  message names the number of digits, printed by \<open>decimal\<close>.
\<close>

fun decimal :: "nat \<Rightarrow> string" where
  "decimal n =
     (if n < 10 then [char_of (48 + n)]
      else decimal (n div 10) @ [char_of (48 + n mod 10)])"

definition py_int_str :: "string \<Rightarrow> string + nat" where
  "py_int_str s =
     (if length s > 4300
      then Inl (''Exceeds the limit (4300 digits) for integer string conversion: value has ''
                @ decimal (length s)
                @ '' digits; use sys.set_int_max_str_digits() to increase the limit'')
      else Inr (int_of_digits s))"

text \<open>
  The body of \<open>for item in df.values.flatten()\<close>, on \<open>answers\<close>. A cell is
  \<open>None\<close> when \<open>pd.isna\<close> holds of it, and otherwise the text \<open>str(item)\<close>.
  The exception of \<open>int\<close> leaves the loop.
\<close>

definition cell_step ::
  "string option \<Rightarrow> (nat \<rightharpoonup> string) \<Rightarrow> string + (nat \<rightharpoonup> string)" where
  "cell_step item answers =
     (case item of
        None \<Rightarrow> Inr answers
      | Some text \<Rightarrow>
          (case re_search text of
             None \<Rightarrow> Inr answers
           | Some (digits, l) \<Rightarrow>
               (case py_int_str digits of
                  Inl e \<Rightarrow> Inl e
                | Inr q \<Rightarrow> Inr (answers(q \<mapsto> upper l)))))"

fun cells_loop ::
  "string option list \<Rightarrow> (nat \<rightharpoonup> string) \<Rightarrow> string + (nat \<rightharpoonup> string)" where
  "cells_loop [] answers = Inr answers"
| "cells_loop (item # rest) answers =
     (case cell_step item answers of
        Inl e \<Rightarrow> Inl e
      | Inr answers' \<Rightarrow> cells_loop rest answers')"

text \<open>
  The source of the key is what \<open>pd.read_csv\<close> makes of the file: the flattened
  cells, or the message of the exception it raised. Every exception inside the
  \<open>try\<close> gives the error result.
\<close>

definition parse_answer_key :: "string + string option list \<Rightarrow> string + (nat \<rightharpoonup> string)" where
  "parse_answer_key key_file =
     (case key_file of
        Inl e \<Rightarrow> Inl (''Failed to parse answer key: '' @ e)
      | Inr cells \<Rightarrow>
          (case cells_loop cells Map.empty of
             Inl e \<Rightarrow> Inl (''Failed to parse answer key: '' @ e)
           | Inr answers \<Rightarrow> Inr answers))"

text \<open>
  The cell of the specification: it consists of a leading integer, one separator
  (space, hyphen or period) and a trailing single letter \<open>a\<close> to \<open>d\<close> in either case.
\<close>

definition entry_shape :: "string \<Rightarrow> bool" where
  "entry_shape text =
     (takeWhile is_digit text \<noteq> [] \<and>
      (case dropWhile is_digit text of
         [sep, l] \<Rightarrow> sep \<in> set '' -.'' \<and> is_ad l
       | _ \<Rightarrow> False))"

text \<open>
  The entries of the specification: every cell with a match contributes the pair of
  its question number and its letter, in the order of the cells; the key maps a
  question number to the letter of its last pair.
\<close>

definition cell_entry :: "string option \<Rightarrow> (nat \<times> string) list" where
  "cell_entry item =
     (case item of
        None \<Rightarrow> []
      | Some text \<Rightarrow>
          (case re_search text of
             None \<Rightarrow> []
           | Some (digits, l) \<Rightarrow> [(int_of_digits digits, upper l)]))"

definition entries :: "string option list \<Rightarrow> (nat \<times> string) list" where
  "entries cells = concat (map cell_entry cells)"

subsection \<open>The batch (\<open>score_omr_sheets\<close>)\<close>

text \<open>
  An uploaded sheet: the base name of its file and what the image library makes of
  it, the contours and the mask, or \<open>None\<close> when the image cannot be read (the grey
  conversion then raises).
\<close>

record sheet =
  name :: string
  image :: "(contour list \<times> mask) option"

text \<open>What one pass of the loop appends to the report.\<close>

datatype outcome =
    Scored string nat "row list"
  | Warning string nat
  | Failed string error

datatype report =
    PleaseUpload
  | KeyError string
  | Report "outcome list"

text \<open>The body of \<open>for image_obj in omr_images\<close>, with its \<open>try\<close> and \<open>except\<close>.\<close>

definition process_sheet :: "(nat \<rightharpoonup> string) \<Rightarrow> sheet \<Rightarrow> outcome" where
  "process_sheet answer_key image_obj =
     (case image image_obj of
        None \<Rightarrow> Failed (name image_obj) CvError
      | Some (cnts, thresh) \<Rightarrow>
          (case find_and_sort_bubbles cnts of
             Inl e \<Rightarrow> Failed (name image_obj) e
           | Inr bubbles \<Rightarrow>
               if length bubbles < 100 then Warning (name image_obj) (length bubbles)
               else (let student_answers = extract_student_answers bubbles thresh;
                         (score, results_data) = score_sheet answer_key student_answers
                     in Scored (name image_obj) score results_data)))"

fun sheets_loop :: "(nat \<rightharpoonup> string) \<Rightarrow> sheet list \<Rightarrow> outcome list \<Rightarrow> outcome list" where
  "sheets_loop answer_key [] final_report = final_report"
| "sheets_loop answer_key (image_obj # rest) final_report =
     sheets_loop answer_key rest (final_report @ [process_sheet answer_key image_obj])"

definition score_omr_sheets ::
  "sheet list option \<Rightarrow> (string + string option list) option \<Rightarrow> report" where
  "score_omr_sheets omr_images answer_key_file =
     (case (omr_images, answer_key_file) of
        (Some sheets, Some key_file) \<Rightarrow>
          (case parse_answer_key key_file of
             Inl e \<Rightarrow> KeyError e
           | Inr answer_key \<Rightarrow> Report (sheets_loop answer_key sheets []))
      | _ \<Rightarrow> PleaseUpload)"

section \<open>Properties\<close>

subsection \<open>Scorer\<close>

lemma letters_only_not_default:
  assumes "letters_only d"
  shows "d q \<noteq> Some ''Unanswered''" and "d q \<noteq> Some ''N/A''"
proof -
  have "length s = 1" if "d q = Some s" for s
    using assms that unfolding letters_only_def by blast
  from this [of "''Unanswered''"] this [of "''N/A''"]
  show "d q \<noteq> Some ''Unanswered''" and "d q \<noteq> Some ''N/A''" by auto
qed

lemma score_step_row_of:
  assumes "letters_only sa"
  shows "score_step key sa q (sc, rows) =
           (sc + (if status (row_of key sa q) = ''Correct'' then 1 else 0),
            rows @ [row_of key sa q])"
  using letters_only_not_default [OF assms, of q]
  by (auto simp: score_step_def row_of_def dict_get_def Let_def split: option.splits)

lemma score_loop_row_of:
  assumes "letters_only sa"
  shows "score_loop key sa qs (sc, rows) =
           (sc + length (filter (\<lambda>r. status r = ''Correct'') (map (row_of key sa) qs)),
            rows @ map (row_of key sa) qs)"
  by (induction qs arbitrary: sc rows) (simp_all add: score_step_row_of [OF assms])

lemma score_sheet_row_of:
  assumes "letters_only sa"
  shows "score_sheet key sa =
           (length (filter (\<lambda>r. status r = ''Correct'') (map (row_of key sa) [1..<101])),
            map (row_of key sa) [1..<101])"
  by (simp add: score_sheet_def score_loop_row_of [OF assms])

lemma row_of_status:
  assumes "letters_only sa"
  shows "(status (row_of key sa q) = ''Unanswered'' \<longleftrightarrow> sa q = None) \<and>
         (status (row_of key sa q) = ''Correct'' \<longleftrightarrow> (\<exists>s. sa q = Some s \<and> key q = Some s)) \<and>
         (status (row_of key sa q) = ''Incorrect'' \<longleftrightarrow> (\<exists>s. sa q = Some s \<and> key q \<noteq> Some s)) \<and>
         (key q = None \<longrightarrow> correct_answer (row_of key sa q) = ''N/A'')"
  using letters_only_not_default [OF assms, of q]
  by (auto simp: row_of_def dict_get_def split: option.splits)

lemma q_num_row_of: "q_num (row_of key sa q) = q"
  by (simp add: row_of_def)

text \<open>
  Claim C1. For every Answer Key and every Student Response (a map from question
  numbers to single letters), the Score Report has exactly one row for each question
  1 to 100, in ascending order. A row's status is Unanswered iff the Student Response
  has no entry for the question, Correct iff the student's letter is the key's letter
  for it, and Incorrect otherwise, which includes a question the key has no entry for;
  the correct answer reported for such a question is N/A. The score is the number of
  rows with status Correct.
\<close>

theorem scorer_report:
  assumes "letters_only student_answers"
      and "score_sheet answer_key student_answers = (score, rows)"
  shows "map q_num rows = [1..<101] \<and>
         (\<forall>r \<in> set rows.
            (status r = ''Unanswered'' \<longleftrightarrow> student_answers (q_num r) = None) \<and>
            (status r = ''Correct'' \<longleftrightarrow>
               (\<exists>s. student_answers (q_num r) = Some s \<and> answer_key (q_num r) = Some s)) \<and>
            (status r = ''Incorrect'' \<longleftrightarrow>
               (\<exists>s. student_answers (q_num r) = Some s \<and> answer_key (q_num r) \<noteq> Some s)) \<and>
            (answer_key (q_num r) = None \<longrightarrow> correct_answer r = ''N/A'')) \<and>
         score = length (filter (\<lambda>r. status r = ''Correct'') rows)"
proof -
  have r: "rows = map (row_of answer_key student_answers) [1..<101]"
    and s: "score = length (filter (\<lambda>r. status r = ''Correct'') rows)"
    using assms(2) score_sheet_row_of [OF assms(1), of answer_key] by auto
  have "map q_num rows = [1..<101]"
    unfolding r by (simp add: q_num_row_of comp_def del: upt_Suc)
  moreover have "(status r = ''Unanswered'' \<longleftrightarrow> student_answers (q_num r) = None) \<and>
            (status r = ''Correct'' \<longleftrightarrow>
               (\<exists>s. student_answers (q_num r) = Some s \<and> answer_key (q_num r) = Some s)) \<and>
            (status r = ''Incorrect'' \<longleftrightarrow>
               (\<exists>s. student_answers (q_num r) = Some s \<and> answer_key (q_num r) \<noteq> Some s)) \<and>
            (answer_key (q_num r) = None \<longrightarrow> correct_answer r = ''N/A'')"
    if "r \<in> set rows" for r
  proof -
    from that obtain q where "r = row_of answer_key student_answers q"
      unfolding r by auto
    then show ?thesis
      using row_of_status [OF assms(1), of answer_key q] by (simp add: q_num_row_of)
  qed
  ultimately show ?thesis using s by blast
qed

text \<open>
  The scenario of the specification: the key \<open>{1: A, 2: B}\<close> and the response
  \<open>{1: A, 2: C, 3: A}\<close> give the score 1.
\<close>

theorem scorer_report_witness:
  "letters_only [1 \<mapsto> ''A'', 2 \<mapsto> ''C'', 3 \<mapsto> ''A''] \<and>
   fst (score_sheet [1 \<mapsto> ''A'', 2 \<mapsto> ''B''] [1 \<mapsto> ''A'', 2 \<mapsto> ''C'', 3 \<mapsto> ''A'']) = 1 \<and>
   map q_num (snd (score_sheet [1 \<mapsto> ''A'', 2 \<mapsto> ''B''] [1 \<mapsto> ''A'', 2 \<mapsto> ''C'', 3 \<mapsto> ''A'']))
     = [1..<101] \<and>
   length (filter (\<lambda>r. status r = ''Correct'')
     (snd (score_sheet [1 \<mapsto> ''A'', 2 \<mapsto> ''B''] [1 \<mapsto> ''A'', 2 \<mapsto> ''C'', 3 \<mapsto> ''A'']))) = 1"
proof -
  have l: "letters_only [1 \<mapsto> ''A'', 2 \<mapsto> ''C'', 3 \<mapsto> ''A'']"
    by (simp add: letters_only_def)
  have e: "fst (score_sheet [1 \<mapsto> ''A'', 2 \<mapsto> ''B''] [1 \<mapsto> ''A'', 2 \<mapsto> ''C'', 3 \<mapsto> ''A'']) = 1"
    by code_simp
  show ?thesis
    using l e scorer_report [OF l prod.collapse [symmetric], of "[1 \<mapsto> ''A'', 2 \<mapsto> ''B'']"]
    by simp
qed

subsection \<open>Mark Selector\<close>

lemma index_of_less: "x \<in> set xs \<Longrightarrow> index_of x xs < length xs"
  by (induction xs) auto

lemma index_of_nth: "x \<in> set xs \<Longrightarrow> xs ! index_of x xs = x"
  by (induction xs) auto

lemma index_of_first: "k < index_of x xs \<Longrightarrow> xs ! k \<noteq> x"
  by (induction xs arbitrary: k) (auto simp: nth_Cons split: if_splits nat.splits)

lemma select_bubbled_Some:
  "select_bubbled thresh cs j (Some (best, k)) =
     (if cs \<noteq> [] \<and> best < Max (set (map (total_of thresh) cs))
      then Some (Max (set (map (total_of thresh) cs)),
                 j + index_of (Max (set (map (total_of thresh) cs))) (map (total_of thresh) cs))
      else Some (best, k))"
proof (induction cs arbitrary: j best k)
  case Nil
  then show ?case by simp
next
  case (Cons c cs)
  show ?case
  proof (cases "cs = []")
    case True
    then show ?thesis by (simp add: Let_def)
  next
    case False
    then have m: "Max (set (map (total_of thresh) (c # cs))) =
                    max (total_of thresh c) (Max (set (map (total_of thresh) cs)))"
      by simp
    show ?thesis
      unfolding m using False
      by (auto simp: Let_def Cons.IH max_def)
  qed
qed

lemma select_bubbled_None:
  assumes "cs \<noteq> []"
  shows "select_bubbled thresh cs j None =
           Some (Max (set (map (total_of thresh) cs)),
                 j + index_of (Max (set (map (total_of thresh) cs))) (map (total_of thresh) cs))"
proof -
  obtain c cs' where cs: "cs = c # cs'" using assms by (cases cs) auto
  show ?thesis
  proof (cases "cs' = []")
    case True
    then show ?thesis by (simp add: cs Let_def)
  next
    case False
    then have m: "Max (set (map (total_of thresh) (c # cs'))) =
                    max (total_of thresh c) (Max (set (map (total_of thresh) cs')))"
      by simp
    show ?thesis
      unfolding cs m using False
      by (auto simp: Let_def select_bubbled_Some max_def)
  qed
qed

lemma length_group_of:
  "i < length cnts div 4 \<Longrightarrow> length (group_of cnts i) = 4"
  by (simp add: group_of_def) 

lemma question_step_selected:
  assumes "i < length cnts div 4"
  shows "question_step cnts thresh i m =
           (case selected (map (total_of thresh) (group_of cnts i)) of
              None \<Rightarrow> m
            | Some j \<Rightarrow> m(i + 1 \<mapsto> letter j))"
proof -
  have ne: "group_of cnts i \<noteq> []"
    using length_group_of [OF assms] by auto
  have g: "sort_key cx (slice cnts (i * 4) (i * 4 + 4)) = group_of cnts i"
    by (simp add: slice_def group_of_def mult.commute)
  show ?thesis
    by (simp add: question_step_def Let_def g select_bubbled_None [OF ne] selected_def)
qed

lemma fold_question_step:
  assumes "n \<le> length cnts div 4"
  shows "fold (question_step cnts thresh) [0..<n] m q =
           (if 1 \<le> q \<and> q \<le> n
            then (case selected (map (total_of thresh) (group_of cnts (q - 1))) of
                    None \<Rightarrow> m q
                  | Some j \<Rightarrow> Some (letter j))
            else m q)"
  using assms
proof (induction n arbitrary: q)
  case 0
  then show ?case by auto
next
  case (Suc n)
  then have i: "n < length cnts div 4" and le: "n \<le> length cnts div 4" by simp_all
  note ih = Suc.IH [OF le]
  show ?case
  proof (cases "q = Suc n")
    case True
    then show ?thesis
      by (simp add: question_step_selected [OF i] ih split: option.splits)
  next
    case False
    then show ?thesis
      by (simp add: question_step_selected [OF i] ih split: option.splits)
  qed
qed

lemma extract_student_answers_selected:
  "extract_student_answers cnts thresh q =
     (if 1 \<le> q \<and> q \<le> length cnts div 4
      then map_option letter (selected (map (total_of thresh) (group_of cnts (q - 1))))
      else None)"
  by (simp add: extract_student_answers_def Let_def fold_question_step split: option.splits)

lemma selected_Some_iff:
  assumes "ts \<noteq> []"
  shows "selected ts = Some j \<longleftrightarrow>
           j < length ts \<and> ts ! j > 150 \<and> (\<forall>k < length ts. ts ! k \<le> ts ! j) \<and>
           (\<forall>k < j. ts ! k < ts ! j)"
proof
  let ?m = "Max (set ts)"
  have min: "?m \<in> set ts" using assms by simp
  assume "selected ts = Some j"
  then have gt: "?m > 150" and j: "j = index_of ?m ts"
    by (auto simp: selected_def split: if_splits)
  have jl: "j < length ts" and tj: "ts ! j = ?m"
    using index_of_less [OF min] index_of_nth [OF min] j by auto
  have "ts ! k \<le> ts ! j" if "k < length ts" for k
    using that tj by simp
  moreover have "ts ! k < ts ! j" if "k < j" for k
  proof -
    have "ts ! k \<noteq> ?m" using index_of_first that j by metis
    moreover have "ts ! k \<le> ?m" using that jl by simp
    ultimately show ?thesis using tj by simp
  qed
  ultimately show "j < length ts \<and> ts ! j > 150 \<and> (\<forall>k < length ts. ts ! k \<le> ts ! j) \<and>
           (\<forall>k < j. ts ! k < ts ! j)"
    using jl tj gt by simp
next
  let ?m = "Max (set ts)"
  assume a: "j < length ts \<and> ts ! j > 150 \<and> (\<forall>k < length ts. ts ! k \<le> ts ! j) \<and>
           (\<forall>k < j. ts ! k < ts ! j)"
  have "?m = ts ! j"
  proof (rule Max_eqI)
    show "finite (set ts)" by simp
    show "ts ! j \<in> set ts" using a by simp
    fix y assume "y \<in> set ts"
    then show "y \<le> ts ! j" using a by (auto simp: in_set_conv_nth)
  qed
  moreover have "index_of (ts ! j) ts = j"
  proof -
    have min: "ts ! j \<in> set ts" using a by simp
    have "\<not> index_of (ts ! j) ts < j"
      using index_of_nth [OF min] a by force
    moreover have "\<not> j < index_of (ts ! j) ts"
      using index_of_first [of j "ts ! j" ts] by auto
    ultimately show ?thesis by simp
  qed
  ultimately show "selected ts = Some j"
    using a by (simp add: selected_def)
qed

lemma selected_None_iff:
  assumes "ts \<noteq> []"
  shows "selected ts = None \<longleftrightarrow> (\<forall>k < length ts. ts ! k \<le> 150)"
proof -
  have "Max (set ts) \<in> set ts" using assms by simp
  then obtain k where k: "k < length ts" "ts ! k = Max (set ts)"
    by (auto simp: in_set_conv_nth)
  have a: "Max (set ts) \<le> 150" if "\<forall>k < length ts. ts ! k \<le> 150"
    using that k by metis
  have b: "\<forall>i < length ts. ts ! i \<le> 150" if "Max (set ts) \<le> 150"
  proof (intro allI impI)
    fix i assume "i < length ts"
    then have "ts ! i \<le> Max (set ts)" by simp
    then show "ts ! i \<le> 150" using that by simp
  qed
  have "selected ts = None \<longleftrightarrow> Max (set ts) \<le> 150"
    by (simp add: selected_def not_less)
  then show ?thesis using a b by blast
qed

lemma letter_inj: "j < 4 \<Longrightarrow> k < 4 \<Longrightarrow> letter j = letter k \<Longrightarrow> j = k"
proof -
  assume a: "j < 4" "k < 4" "letter j = letter k"
  then have "char_of (65 + j) = (char_of (65 + k) :: char)"
    by (simp add: letter_def)
  then have "of_char (char_of (65 + j) :: char) = (of_char (char_of (65 + k) :: char) :: nat)"
    by simp
  then show "j = k" using a(1,2) by (simp add: of_char_of)
qed



lemma letter_values: "letter 0 = ''A'' \<and> letter 1 = ''B'' \<and> letter 2 = ''C'' \<and> letter 3 = ''D''"
  by code_simp

lemma answer_of_group:
  assumes "i < length cnts div 4"
  shows "extract_student_answers cnts thresh (i + 1) =
           map_option letter (selected (map (total_of thresh) (group_of cnts i)))"
  using assms by (simp add: extract_student_answers_selected)

lemma group_answer_Some:
  assumes i: "i < length cnts div 4" and j: "j < 4"
    and totals: "totals = map (total_of thresh) (group_of cnts i)"
  shows "extract_student_answers cnts thresh (i + 1) = Some (letter j) \<longleftrightarrow>
              totals ! j > 150 \<and> (\<forall>k < 4. totals ! k \<le> totals ! j) \<and>
              (\<forall>k < j. totals ! k < totals ! j)"
proof -
  have lt: "length totals = 4" using length_group_of [OF i] totals by simp
  then have ne: "totals \<noteq> []" by auto
  have "map_option letter (selected totals) = Some (letter j) \<longleftrightarrow> selected totals = Some j"
  proof
    assume "map_option letter (selected totals) = Some (letter j)"
    then obtain j' where j': "selected totals = Some j'" "letter j' = letter j"
      by auto
    then have "j' < 4" using selected_Some_iff [OF ne, of j'] lt by simp
    then show "selected totals = Some j" using letter_inj j j' by blast
  next
    assume "selected totals = Some j"
    then show "map_option letter (selected totals) = Some (letter j)" by simp
  qed
  moreover have "selected totals = Some j \<longleftrightarrow>
      totals ! j > 150 \<and> (\<forall>k < 4. totals ! k \<le> totals ! j) \<and> (\<forall>k < j. totals ! k < totals ! j)"
    unfolding selected_Some_iff [OF ne, of j] lt using j by simp
  ultimately show ?thesis
    unfolding answer_of_group [OF i] totals by simp
qed

lemma group_answer_None:
  assumes i: "i < length cnts div 4"
    and totals: "totals = map (total_of thresh) (group_of cnts i)"
  shows "extract_student_answers cnts thresh (i + 1) = None \<longleftrightarrow> (\<forall>k < 4. totals ! k \<le> 150)"
proof -
  have lt: "length totals = 4" using length_group_of [OF i] totals by simp
  then have ne: "totals \<noteq> []" by auto
  have "selected totals = None \<longleftrightarrow> (\<forall>k < 4. totals ! k \<le> 150)"
    unfolding selected_None_iff [OF ne] lt by simp
  then show ?thesis
    unfolding answer_of_group [OF i] totals by simp
qed

lemma group_answer_range:
  assumes i: "i < length cnts div 4"
    and s: "extract_student_answers cnts thresh (i + 1) = Some s"
  shows "\<exists>j < 4. s = letter j"
proof -
  let ?totals = "map (total_of thresh) (group_of cnts i)"
  have lt: "length ?totals = 4" using length_group_of [OF i] by simp
  then have ne: "?totals \<noteq> []" by auto
  from s have "map_option letter (selected ?totals) = Some s"
    unfolding answer_of_group [OF i] .
  then obtain j where j: "selected ?totals = Some j" "s = letter j" by auto
  have "j < length ?totals" using j(1) selected_Some_iff [OF ne, of j] by blast
  then have "j < 4" using lt by simp
  then show ?thesis using j(2) by blast
qed

lemma answers_dom:
  assumes "extract_student_answers cnts thresh q \<noteq> None"
  shows "1 \<le> q \<and> q \<le> length cnts div 4"
  using assms by (simp add: extract_student_answers_selected split: if_splits)

text \<open>
  Claim C2. For every ordered candidate sequence of length \<open>n\<close> and every binary mask,
  the Mark Selector records answers for the questions \<open>1\<close> to \<open>n div 4\<close> only (the
  trailing remainder of fewer than four candidates is ignored). The group of question
  \<open>i + 1\<close> is the \<open>i\<close>-th consecutive run of four candidates, re-sorted by horizontal
  position. The question receives the letter \<open>A\<close> plus \<open>j\<close> iff the count at position
  \<open>j\<close> of the sorted group exceeds 150, is the maximum of the group, and is larger than
  every count before it (ties go to the first position); it receives no entry iff every
  count of the group is at most 150.
\<close>

theorem mark_selector:
  "(\<forall>q. extract_student_answers cnts thresh q \<noteq> None \<longrightarrow> 1 \<le> q \<and> q \<le> length cnts div 4) \<and>
   (\<forall>i < length cnts div 4.
      let row = sort_key cx (take 4 (drop (4 * i) cnts));
          totals = map (total_of thresh) row
      in length row = 4 \<and> mset row = mset (take 4 (drop (4 * i) cnts)) \<and>
         sorted (map cx row) \<and>
         (\<forall>j < 4. extract_student_answers cnts thresh (i + 1) = Some (letter j) \<longleftrightarrow>
              totals ! j > 150 \<and> (\<forall>k < 4. totals ! k \<le> totals ! j) \<and>
              (\<forall>k < j. totals ! k < totals ! j)) \<and>
         (extract_student_answers cnts thresh (i + 1) = None \<longleftrightarrow>
              (\<forall>k < 4. totals ! k \<le> 150)) \<and>
         (\<forall>s. extract_student_answers cnts thresh (i + 1) = Some s \<longrightarrow>
              (\<exists>j < 4. s = letter j))) \<and>
   letter 0 = ''A'' \<and> letter 1 = ''B'' \<and> letter 2 = ''C'' \<and> letter 3 = ''D''"
  unfolding Let_def group_of_def [symmetric]
proof (intro conjI allI impI)
  fix q assume "extract_student_answers cnts thresh q \<noteq> None"
  then show "1 \<le> q" and "q \<le> length cnts div 4" using answers_dom by blast+
next
  fix i assume i: "i < length cnts div 4"
  show "length (group_of cnts i) = 4" by (rule length_group_of [OF i])
  show "mset (group_of cnts i) = mset (take 4 (drop (4 * i) cnts))"
    by (simp add: group_of_def)
  show "sorted (map cx (group_of cnts i))"
    by (simp add: group_of_def)
  show "extract_student_answers cnts thresh (i + 1) = None \<longleftrightarrow>
          (\<forall>k < 4. map (total_of thresh) (group_of cnts i) ! k \<le> 150)"
    by (rule group_answer_None [OF i refl])
  show "\<exists>j < 4. s = letter j" if "extract_student_answers cnts thresh (i + 1) = Some s" for s
    by (rule group_answer_range [OF i that])
  show "extract_student_answers cnts thresh (i + 1) = Some (letter j) \<longleftrightarrow>
          map (total_of thresh) (group_of cnts i) ! j > 150 \<and>
          (\<forall>k < 4. map (total_of thresh) (group_of cnts i) ! k
                      \<le> map (total_of thresh) (group_of cnts i) ! j) \<and>
          (\<forall>k < j. map (total_of thresh) (group_of cnts i) ! k
                      < map (total_of thresh) (group_of cnts i) ! j)" if "j < 4" for j
    by (rule group_answer_Some [OF i that refl])
next
  show "letter 0 = ''A''" "letter 1 = ''B''" "letter 2 = ''C''" "letter 3 = ''D''"
    using letter_values by blast+
qed

text \<open>
  Five candidates: one group and a remainder of one. Sorted by \<open>x\<close> the counts are
  0, 151, 3, 151, so the answer to question 1 is B, and there is no question 2.
\<close>

theorem mark_selector_witness:
  "(0 :: nat) < length (map (\<lambda>(x, n). \<lparr>cx = x, cy = 0, cw = 20, ch = 20,
             region = map (\<lambda>i. (int i, 0)) [0..<n]\<rparr>)
           [(30, 151), (10, 151), (20, 3), (0, 0), (5, 1)]) div 4 \<and>
   extract_student_answers
     (map (\<lambda>(x, n). \<lparr>cx = x, cy = 0, cw = 20, ch = 20,
             region = map (\<lambda>i. (int i, 0)) [0..<n]\<rparr>)
           [(30, 151), (10, 151), (20, 3), (0, 0), (5, 1)]) (\<lambda>p. True) 1 = Some ''B'' \<and>
   extract_student_answers
     (map (\<lambda>(x, n). \<lparr>cx = x, cy = 0, cw = 20, ch = 20,
             region = map (\<lambda>i. (int i, 0)) [0..<n]\<rparr>)
           [(30, 151), (10, 151), (20, 3), (0, 0), (5, 1)]) (\<lambda>p. True) 2 = None"
proof -
  let ?cnts = "map (\<lambda>(x, n). \<lparr>cx = x, cy = 0, cw = 20, ch = 20,
             region = map (\<lambda>i. (int i, 0)) [0..<n]\<rparr>)
           [(30, 151), (10, 151), (20, 3), (0, 0), (5, 1)]"
  have l: "(0 :: nat) < length ?cnts div 4" by simp
  have e: "extract_student_answers ?cnts (\<lambda>p. True) 1 = Some ''B''" by code_simp
  have n: "\<not> (1 \<le> (2 :: nat) \<and> 2 \<le> length ?cnts div 4)" by simp
  have "extract_student_answers ?cnts (\<lambda>p. True) 2 = None"
  proof (rule ccontr)
    assume "extract_student_answers ?cnts (\<lambda>p. True) 2 \<noteq> None"
    from mark_selector [of ?cnts "\<lambda>p. True", THEN conjunct1, rule_format, OF this] n
    show False by blast
  qed
  then show ?thesis using l e by blast
qed

subsection \<open>Grid Orderer\<close>

lemma keys_of_total: "keys_of (\<lambda>x. Inr (g x)) xs = Inr (map g xs)"
  by (induction xs) simp_all

lemma keys_of_cong:
  assumes "\<forall>x \<in> set xs. f x = f' x"
  shows "keys_of f xs = keys_of f' xs"
  using assms by (induction xs) (auto split: sum.splits)

lemma keys_of_fail:
  "xs \<noteq> [] \<Longrightarrow> keys_of (\<lambda>x. Inl e) xs = Inl e"
  by (cases xs) simp_all

lemma insort_key_zip:
  assumes "\<forall>p \<in> set ps. fst p = g (snd p)"
  shows "map snd (insort_key fst (g x, x) ps) = insort_key g x (map snd ps)"
  using assms by (induction ps) auto

lemma sort_key_zip_set:
  "\<forall>p \<in> set (sort_key fst (zip (map g xs) xs)). fst p = g (snd p)"
  by (auto simp: in_set_zip)

lemma sort_key_zip:
  "map snd (sort_key fst (zip (map g xs) xs)) = sort_key g xs"
proof (induction xs)
  case Nil
  then show ?case by simp
next
  case (Cons x xs)
  have "map snd (sort_key fst (zip (map g (x # xs)) (x # xs)))
          = map snd (insort_key fst (g x, x) (sort_key fst (zip (map g xs) xs)))"
    by (simp add: sort_key_simps)
  also have "\<dots> = insort_key g x (map snd (sort_key fst (zip (map g xs) xs)))"
    by (rule insort_key_zip [OF sort_key_zip_set])
  also have "\<dots> = sort_key g (x # xs)"
    by (simp add: Cons.IH sort_key_simps)
  finally show ?case .
qed

lemma sorted_by_total: "sorted_by (\<lambda>x. Inr (g x)) xs = Inr (sort_key g xs)"
  by (simp add: sorted_by_def keys_of_total sort_key_zip)

lemma sorted_by_fail: "xs \<noteq> [] \<Longrightarrow> sorted_by (\<lambda>x. Inl e) xs = (Inl e :: error + 'a list)"
  for xs :: "'a list"
  by (simp add: sorted_by_def keys_of_fail)


lemma col_key_ok:
  "col_width \<noteq> 0 \<Longrightarrow>
     col_key min_x col_width c = Inr (min 4 (py_int (of_int (cx c - min_x) / col_width)), cy c)"
  by (simp add: col_key_def get_col_def)

lemma col_key_zero: "col_key min_x 0 c = Inl ZeroDivisionError"
  by (simp add: col_key_def get_col_def)

lemma py_int_floor: "0 \<le> r \<Longrightarrow> py_int r = \<lfloor>r\<rfloor>"
  by (simp add: py_int_def)

lemma band_get_col:
  assumes "min_x < max_x" "min_x \<le> x"
  shows "get_col min_x (of_int (max_x - min_x) / 5) x = Inr (band min_x max_x x)"
proof -
  have "(0 :: rat) \<le> of_int (x - min_x) / (of_int (max_x - min_x) / 5)"
    using assms by simp
  then show ?thesis
    using assms(1) by (simp add: get_col_def band_def py_int_floor)
qed

lemma band_mono:
  assumes "min_x < max_x" "x1 \<le> x2"
  shows "band min_x max_x x1 \<le> band min_x max_x x2"
proof -
  have "(of_int (x1 - min_x) :: rat) / (of_int (max_x - min_x) / 5)
          \<le> of_int (x2 - min_x) / (of_int (max_x - min_x) / 5)"
    using assms by (simp add: divide_right_mono)
  then have "\<lfloor>(of_int (x1 - min_x) :: rat) / (of_int (max_x - min_x) / 5)\<rfloor>
          \<le> \<lfloor>(of_int (x2 - min_x) :: rat) / (of_int (max_x - min_x) / 5)\<rfloor>"
    by (rule floor_mono)
  then show ?thesis by (simp add: band_def)
qed

lemma band_range:
  assumes "min_x < max_x" "min_x \<le> x"
  shows "0 \<le> band min_x max_x x \<and> band min_x max_x x \<le> 4"
proof -
  have "(0 :: rat) \<le> of_int (x - min_x) / (of_int (max_x - min_x) / 5)"
    using assms by simp
  then have "0 \<le> \<lfloor>(of_int (x - min_x) :: rat) / (of_int (max_x - min_x) / 5)\<rfloor>"
    by simp
  then show ?thesis by (simp add: band_def)
qed

lemma band_max:
  assumes "min_x < max_x"
  shows "band min_x max_x max_x = 4"
proof -
  have g: "a / (a / 5) = 5" if "a \<noteq> 0" for a :: rat
    using that by simp
  have "(of_int (max_x - min_x) :: rat) \<noteq> 0"
    using assms by simp
  then have "(of_int (max_x - min_x) :: rat) / (of_int (max_x - min_x) / 5) = 5"
    by (rule g)
  then show ?thesis by (simp add: band_def)
qed

lemma band_div:
  assumes "min_x < max_x"
  shows "band min_x max_x x = min 4 ((5 * (x - min_x)) div (max_x - min_x))"
proof -
  have "(of_int (x - min_x) :: rat) / (of_int (max_x - min_x) / 5)
          = of_int (5 * (x - min_x)) / of_int (max_x - min_x)"
    by simp
  then show ?thesis
    by (simp only: band_def floor_divide_of_int_eq)
qed

text \<open>What the Grid Orderer computes.\<close>

lemma grid_order_small:
  assumes "length qs \<le> 100"
  shows "grid_order qs = Inr (sort_key (\<lambda>c. (cx c, cy c)) qs)"
  using assms by (simp add: grid_order_def Let_def)

lemma grid_order_zero_span:
  assumes "length qs > 100" "Max (set (map cx qs)) = Min (set (map cx qs))"
  shows "grid_order qs = Inl ZeroDivisionError"
proof -
  let ?s = "sort_key (\<lambda>c. (cx c, cy c)) qs"
  have ne: "?s \<noteq> []" using assms(1) by (auto simp: sort_key_def [symmetric] dest: arg_cong [where f = length])
  have st: "set (map cx ?s) = set (map cx qs)" by simp
  have "sorted_by (col_key (Min (set (map cx qs))) 0) ?s = Inl ZeroDivisionError"
    using sorted_by_fail [OF ne, of ZeroDivisionError]
    by (simp add: col_key_zero [abs_def])
  then show ?thesis
    using assms unfolding grid_order_def Let_def st by simp
qed

lemma grid_order_bands:
  assumes "length qs > 100" "Min (set (map cx qs)) < Max (set (map cx qs))"
  shows "grid_order qs =
           Inr (sort_key (\<lambda>c. (band (Min (set (map cx qs))) (Max (set (map cx qs))) (cx c), cy c))
                  (sort_key (\<lambda>c. (cx c, cy c)) qs))"
proof -
  let ?s = "sort_key (\<lambda>c. (cx c, cy c)) qs"
  let ?mn = "Min (set (map cx qs))" and ?mx = "Max (set (map cx qs))"
  let ?w = "(of_int (?mx - ?mn) :: rat) / 5"
  have st: "set (map cx ?s) = set (map cx qs)" by simp
  have k: "\<forall>c \<in> set ?s. col_key ?mn ?w c = Inr (band ?mn ?mx (cx c), cy c)"
  proof
    fix c assume "c \<in> set ?s"
    then have "cx c \<in> set (map cx qs)" by simp
    then have "?mn \<le> cx c" by simp
    then show "col_key ?mn ?w c = Inr (band ?mn ?mx (cx c), cy c)"
      using band_get_col [OF assms(2)] by (simp add: col_key_def)
  qed
  have "sorted_by (col_key ?mn ?w) ?s = sorted_by (\<lambda>c. Inr (band ?mn ?mx (cx c), cy c)) ?s"
    unfolding sorted_by_def using keys_of_cong [OF k] by simp
  then show ?thesis
    using assms(1) unfolding grid_order_def Let_def st by (simp add: sorted_by_total)
qed

lemma sorted_lex_nth:
  fixes ks :: "(int \<times> int) list"
  assumes "sorted ks" "i < j" "j < length ks"
  shows "fst (ks ! i) < fst (ks ! j) \<or> (fst (ks ! i) = fst (ks ! j) \<and> snd (ks ! i) \<le> snd (ks ! j))"
proof -
  have "ks ! i \<le> ks ! j"
    using assms by (simp add: sorted_iff_nth_mono)
  then show ?thesis
    by (cases "ks ! i"; cases "ks ! j") (auto simp: less_eq_prod_def)
qed

lemma grid_order_cases:
  "grid_order qs =
     (if length qs \<le> 100 then Inr (sort_key (\<lambda>c. (cx c, cy c)) qs)
      else if Min (set (map cx qs)) < Max (set (map cx qs))
      then Inr (sort_key (\<lambda>c. (band (Min (set (map cx qs))) (Max (set (map cx qs))) (cx c), cy c))
                  (sort_key (\<lambda>c. (cx c, cy c)) qs))
      else Inl ZeroDivisionError)"
proof -
  have "Min (set (map cx qs)) \<le> Max (set (map cx qs))" if "length qs > 100"
  proof -
    have "set (map cx qs) \<noteq> {}" using that by auto
    then show ?thesis by simp
  qed
  then show ?thesis
    using grid_order_small [of qs] grid_order_zero_span [of qs] grid_order_bands [of qs]
    by (auto simp: not_le not_less)
qed

lemma grid_order_mset:
  assumes "grid_order qs = Inr out"
  shows "mset out = mset qs"
  using assms by (auto simp: grid_order_cases split: if_splits)

text \<open>
  Claim C5. Whenever the Grid Orderer returns, and it returns for every filtered
  candidate set of at most 100 candidates and for every larger one whose horizontal
  span is not zero, its output is a permutation of its input, so the output length is
  the candidate count. With at most 100 candidates the output is the input sorted by
  horizontal position first and vertical position second. An output that differs from
  that order, which is what the five-band re-sort produces, occurs only with more than
  100 candidates.
\<close>

theorem grid_orderer:
  "(length qs \<le> 100 \<or> Min (set (map cx qs)) < Max (set (map cx qs))
      \<longrightarrow> (\<exists>out. grid_order qs = Inr out)) \<and>
   (\<forall>out. grid_order qs = Inr out \<longrightarrow>
      mset out = mset qs \<and> length out = length qs \<and>
      (length qs \<le> 100 \<longrightarrow>
         out = sort_key (\<lambda>c. (cx c, cy c)) qs \<and>
         (\<forall>i j. i < j \<and> j < length out \<longrightarrow>
            cx (out ! i) < cx (out ! j) \<or>
            (cx (out ! i) = cx (out ! j) \<and> cy (out ! i) \<le> cy (out ! j)))) \<and>
      (out \<noteq> sort_key (\<lambda>c. (cx c, cy c)) qs \<longrightarrow> length qs > 100))"
proof (intro conjI allI impI)
  assume "length qs \<le> 100 \<or> Min (set (map cx qs)) < Max (set (map cx qs))"
  then show "\<exists>out. grid_order qs = Inr out"
    by (auto simp: grid_order_cases)
next
  fix out assume o: "grid_order qs = Inr out"
  show m: "mset out = mset qs" by (rule grid_order_mset [OF o])
  show "length out = length qs" using m by (rule mset_eq_length)
  show "length qs > 100" if "out \<noteq> sort_key (\<lambda>c. (cx c, cy c)) qs"
    using that o by (auto simp: grid_order_cases split: if_splits)
next
  fix out assume o: "grid_order qs = Inr out" and l: "length qs \<le> 100"
  show e: "out = sort_key (\<lambda>c. (cx c, cy c)) qs"
    using o l by (simp add: grid_order_cases)
  fix i j assume ij: "i < j \<and> j < length out"
  have s: "sorted (map (\<lambda>c. (cx c, cy c)) out)"
    unfolding e by (rule sorted_sort_key)
  show "cx (out ! i) < cx (out ! j) \<or>
            (cx (out ! i) = cx (out ! j) \<and> cy (out ! i) \<le> cy (out ! j))"
    using sorted_lex_nth [OF s, of i j] ij by simp
qed

theorem grid_orderer_witness:
  "grid_order [\<lparr>cx = 3, cy = 1, cw = 20, ch = 20, region = []\<rparr>,
               \<lparr>cx = 1, cy = 2, cw = 20, ch = 20, region = []\<rparr>,
               \<lparr>cx = 1, cy = 1, cw = 20, ch = 20, region = []\<rparr>]
     = Inr [\<lparr>cx = 1, cy = 1, cw = 20, ch = 20, region = []\<rparr>,
            \<lparr>cx = 1, cy = 2, cw = 20, ch = 20, region = []\<rparr>,
            \<lparr>cx = 3, cy = 1, cw = 20, ch = 20, region = []\<rparr>] \<and>
   mset [\<lparr>cx = 1, cy = 1, cw = 20, ch = 20, region = []\<rparr>,
         \<lparr>cx = 1, cy = 2, cw = 20, ch = 20, region = []\<rparr>,
         \<lparr>cx = 3, cy = 1, cw = 20, ch = 20, region = []\<rparr>]
     = mset [\<lparr>cx = 3, cy = 1, cw = 20, ch = 20, region = []\<rparr>,
             \<lparr>cx = 1, cy = 2, cw = 20, ch = 20, region = []\<rparr>,
             \<lparr>cx = 1, cy = 1, cw = 20, ch = 20, region = []\<rparr>]"
proof -
  let ?qs = "[\<lparr>cx = 3, cy = 1, cw = 20, ch = 20, region = []\<rparr>,
               \<lparr>cx = 1, cy = 2, cw = 20, ch = 20, region = []\<rparr>,
               \<lparr>cx = 1, cy = 1, cw = 20, ch = 20, region = []\<rparr>]"
  let ?out = "[\<lparr>cx = 1, cy = 1, cw = 20, ch = 20, region = []\<rparr>,
            \<lparr>cx = 1, cy = 2, cw = 20, ch = 20, region = []\<rparr>,
            \<lparr>cx = 3, cy = 1, cw = 20, ch = 20, region = []\<rparr>]"
  have e: "grid_order ?qs = Inr ?out" by code_simp
  from grid_orderer [of ?qs, THEN conjunct2, rule_format, OF e]
  have "mset ?out = mset ?qs" by (rule conjunct1)
  then show ?thesis using e by (rule conjI [rotated])
qed

text \<open>
  Claim C6. In multi-column mode (more than 100 candidates), provided the largest
  x-coordinate exceeds the smallest, the band index \<open>get_col\<close> gives a candidate
  depends on its x-coordinate and the two extremes only: it is
  \<open>min(4, floor((x - min_x) / ((max_x - min_x) / 5)))\<close>. The index is monotone in
  \<open>x\<close>, lies in \<open>{0, 1, 2, 3, 4}\<close>, and is 4 at \<open>max_x\<close>, where the quotient is 5.
  The Grid Orderer then returns the candidates sorted by band index first and vertical
  position second.
\<close>

theorem band_assignment:
  assumes "length qs > 100"
      and "min_x = Min (set (map cx qs))"
      and "max_x = Max (set (map cx qs))"
      and "min_x < max_x"
  shows "(\<forall>c \<in> set qs.
            get_col min_x (of_int (max_x - min_x) / 5) (cx c) = Inr (band min_x max_x (cx c)) \<and>
            band min_x max_x (cx c)
              = min 4 \<lfloor>(of_int (cx c - min_x) :: rat) / (of_int (max_x - min_x) / 5)\<rfloor> \<and>
            band min_x max_x (cx c) \<in> {0, 1, 2, 3, 4}) \<and>
         (\<forall>a \<in> set qs. \<forall>b \<in> set qs.
            cx a \<le> cx b \<longrightarrow> band min_x max_x (cx a) \<le> band min_x max_x (cx b)) \<and>
         band min_x max_x max_x = 4 \<and>
         (\<exists>out. grid_order qs = Inr out \<and> mset out = mset qs \<and>
            sorted (map (\<lambda>c. (band min_x max_x (cx c), cy c)) out))"
proof (intro conjI ballI impI)
  fix c assume c: "c \<in> set qs"
  then have "cx c \<in> set (map cx qs)" by simp
  then have le: "min_x \<le> cx c" unfolding assms(2) by simp
  show "get_col min_x (of_int (max_x - min_x) / 5) (cx c) = Inr (band min_x max_x (cx c))"
    by (rule band_get_col [OF assms(4) le])
  show "band min_x max_x (cx c)
          = min 4 \<lfloor>(of_int (cx c - min_x) :: rat) / (of_int (max_x - min_x) / 5)\<rfloor>"
    by (simp only: band_def)
  have "0 \<le> band min_x max_x (cx c) \<and> band min_x max_x (cx c) \<le> 4"
    by (rule band_range [OF assms(4) le])
  then show "band min_x max_x (cx c) \<in> {0, 1, 2, 3, 4}" by auto
next
  fix a b assume "cx a \<le> cx b"
  then show "band min_x max_x (cx a) \<le> band min_x max_x (cx b)"
    by (rule band_mono [OF assms(4)])
next
  show "band min_x max_x max_x = 4" by (rule band_max [OF assms(4)])
next
  let ?out = "sort_key (\<lambda>c. (band min_x max_x (cx c), cy c)) (sort_key (\<lambda>c. (cx c, cy c)) qs)"
  have "grid_order qs = Inr ?out"
    using grid_order_bands [of qs] assms by simp
  moreover have "mset ?out = mset qs" by simp
  moreover have "sorted (map (\<lambda>c. (band min_x max_x (cx c), cy c)) ?out)"
    by (rule sorted_sort_key)
  ultimately show "\<exists>out. grid_order qs = Inr out \<and> mset out = mset qs \<and>
            sorted (map (\<lambda>c. (band min_x max_x (cx c), cy c)) out)"
    by blast
qed

text \<open>
  101 candidates at the x-coordinates 0 to 100: the extremes are 0 and 100, and the
  candidate at 100 is in band 4.
\<close>

theorem band_assignment_witness:
  "length (map (\<lambda>i. \<lparr>cx = int i, cy = 0, cw = 20, ch = 20, region = []\<rparr>) [0..<101]) > 100 \<and>
   (0 :: int) < 100 \<and>
   band 0 100 100 = 4 \<and>
   (\<exists>out. grid_order (map (\<lambda>i. \<lparr>cx = int i, cy = 0, cw = 20, ch = 20, region = []\<rparr>) [0..<101])
            = Inr out)"
proof -
  let ?qs = "map (\<lambda>i. \<lparr>cx = int i, cy = 0, cw = 20, ch = 20, region = []\<rparr>) [0..<101]"
  have l: "length ?qs > 100" by simp
  have mn: "(0 :: int) = Min (set (map cx ?qs))" by code_simp
  have mx: "(100 :: int) = Max (set (map cx ?qs))" by code_simp
  have lt: "(0 :: int) < 100" by simp
  from band_assignment [OF l mn mx lt]
  have "band 0 100 100 = 4 \<and> (\<exists>out. grid_order ?qs = Inr out)" by blast
  then show ?thesis using l lt by blast
qed

subsection \<open>Region Detector\<close>

lemma filter_cnts_acc:
  assumes "\<forall>c \<in> set cnts. ch c \<noteq> 0"
  shows "filter_cnts cnts acc = Inr (acc @ filter aspect_ok cnts)"
  using assms by (induction cnts arbitrary: acc) simp_all

lemma filter_cnts_zero:
  assumes "\<exists>c \<in> set cnts. ch c = 0"
  shows "filter_cnts cnts acc = Inl ZeroDivisionError"
  using assms by (induction cnts arbitrary: acc) auto

lemma filter_cnts_Inr:
  assumes "filter_cnts cnts [] = Inr qs"
  shows "qs = filter aspect_ok cnts"
proof (cases "\<exists>c \<in> set cnts. ch c = 0")
  case True
  then show ?thesis using filter_cnts_zero [of cnts "[]"] assms by simp
next
  case False
  then show ?thesis using filter_cnts_acc [of cnts "[]"] assms by simp
qed

lemma find_and_sort_bubbles_set:
  assumes "find_and_sort_bubbles cnts = Inr bubbles"
  shows "mset bubbles = mset (filter aspect_ok cnts)"
proof -
  from assms obtain qs where q: "filter_cnts cnts [] = Inr qs" "grid_order qs = Inr bubbles"
    by (auto simp: find_and_sort_bubbles_def split: sum.splits)
  show ?thesis
    using grid_order_mset [OF q(2)] filter_cnts_Inr [OF q(1)] by simp
qed

lemma aspect_ok_iff:
  "aspect_ok c \<longleftrightarrow>
     cw c \<ge> 20 \<and> ch c \<ge> 20 \<and>
     (8 / 10 :: rat) \<le> of_int (cw c) / of_int (ch c) \<and>
     (of_int (cw c) / of_int (ch c) :: rat) \<le> 13 / 10"
  by (simp only: aspect_ok_def Let_def)

lemma aspect_ok_fun:
  "aspect_ok = (\<lambda>c. cw c \<ge> 20 \<and> ch c \<ge> 20 \<and>
                          (8 / 10 :: rat) \<le> of_int (cw c) / of_int (ch c) \<and>
                          (of_int (cw c) / of_int (ch c) :: rat) \<le> 13 / 10)"
  by (rule ext) (rule aspect_ok_iff)

text \<open>
  Claim C4. For every region with bounding box \<open>(x, y, w, h)\<close>, the Region Detector
  accepts it as a candidate bubble iff \<open>w \<ge> 20\<close>, \<open>h \<ge> 20\<close> and the aspect ratio
  \<open>w / h\<close> lies between 0.8 and 1.3; all other regions are discarded. The filter loop
  keeps exactly these regions, in order, when no height is zero (no bounding rectangle
  of a region has one), and whenever \<open>find_and_sort_bubbles\<close> returns, the candidates
  it returns are exactly these regions.
\<close>

theorem region_detector:
  "((\<forall>c \<in> set cnts. ch c \<noteq> 0) \<longrightarrow>
      filter_cnts cnts [] =
        Inr (filter (\<lambda>c. cw c \<ge> 20 \<and> ch c \<ge> 20 \<and>
                          (8 / 10 :: rat) \<le> of_int (cw c) / of_int (ch c) \<and>
                          (of_int (cw c) / of_int (ch c) :: rat) \<le> 13 / 10) cnts)) \<and>
   (\<forall>bubbles. find_and_sort_bubbles cnts = Inr bubbles \<longrightarrow>
      (\<forall>c. c \<in> set bubbles \<longleftrightarrow>
           c \<in> set cnts \<and> cw c \<ge> 20 \<and> ch c \<ge> 20 \<and>
           (8 / 10 :: rat) \<le> of_int (cw c) / of_int (ch c) \<and>
           (of_int (cw c) / of_int (ch c) :: rat) \<le> 13 / 10))"
proof (intro conjI allI impI)
  assume "\<forall>c \<in> set cnts. ch c \<noteq> 0"
  then show "filter_cnts cnts [] =
        Inr (filter (\<lambda>c. cw c \<ge> 20 \<and> ch c \<ge> 20 \<and>
                          (8 / 10 :: rat) \<le> of_int (cw c) / of_int (ch c) \<and>
                          (of_int (cw c) / of_int (ch c) :: rat) \<le> 13 / 10) cnts)"
    using filter_cnts_acc [of cnts "[]"] by (simp only: aspect_ok_fun append_Nil)
next
  fix bubbles c assume "find_and_sort_bubbles cnts = Inr bubbles"
  then have "set bubbles = set (filter aspect_ok cnts)"
    using find_and_sort_bubbles_set mset_eq_setD by blast
  then have "c \<in> set bubbles \<longleftrightarrow> c \<in> set cnts \<and> aspect_ok c" by simp
  then show "c \<in> set bubbles \<longleftrightarrow>
           c \<in> set cnts \<and> cw c \<ge> 20 \<and> ch c \<ge> 20 \<and>
           (8 / 10 :: rat) \<le> of_int (cw c) / of_int (ch c) \<and>
           (of_int (cw c) / of_int (ch c) :: rat) \<le> 13 / 10"
    by (simp only: aspect_ok_iff)
qed

text \<open>
  Five regions: ratios 0.8 and 1.3 are accepted, ratio 1.35, a side of 19 and ratio
  23/30 are discarded.
\<close>

theorem region_detector_witness:
  "find_and_sort_bubbles
     [\<lparr>cx = 5, cy = 0, cw = 24, ch = 30, region = []\<rparr>,
      \<lparr>cx = 4, cy = 0, cw = 26, ch = 20, region = []\<rparr>,
      \<lparr>cx = 3, cy = 0, cw = 27, ch = 20, region = []\<rparr>,
      \<lparr>cx = 2, cy = 0, cw = 19, ch = 19, region = []\<rparr>,
      \<lparr>cx = 1, cy = 0, cw = 23, ch = 30, region = []\<rparr>]
   = Inr [\<lparr>cx = 4, cy = 0, cw = 26, ch = 20, region = []\<rparr>,
          \<lparr>cx = 5, cy = 0, cw = 24, ch = 30, region = []\<rparr>] \<and>
   \<lparr>cx = 3, cy = 0, cw = 27, ch = 20, region = []\<rparr>
     \<notin> set [\<lparr>cx = 4, cy = 0, cw = 26, ch = 20, region = []\<rparr>,
            \<lparr>cx = 5, cy = 0, cw = 24, ch = 30, region = []\<rparr>] \<and>
   \<not> (of_int 27 / of_int 20 :: rat) \<le> 13 / 10"
proof -
  let ?cnts = "[\<lparr>cx = 5, cy = 0, cw = 24, ch = 30, region = []\<rparr>,
      \<lparr>cx = 4, cy = 0, cw = 26, ch = 20, region = []\<rparr>,
      \<lparr>cx = 3, cy = 0, cw = 27, ch = 20, region = []\<rparr>,
      \<lparr>cx = 2, cy = 0, cw = 19, ch = 19, region = []\<rparr>,
      \<lparr>cx = 1, cy = 0, cw = 23, ch = 30, region = []\<rparr>]"
  let ?out = "[\<lparr>cx = 4, cy = 0, cw = 26, ch = 20, region = []\<rparr>,
          \<lparr>cx = 5, cy = 0, cw = 24, ch = 30, region = []\<rparr>]"
  have e: "find_and_sort_bubbles ?cnts = Inr ?out" by code_simp
  have n: "\<not> (of_int 27 / of_int 20 :: rat) \<le> 13 / 10" by simp
  have "\<lparr>cx = 3, cy = 0, cw = 27, ch = 20, region = []\<rparr> \<notin> set ?out"
    using region_detector [of ?cnts, THEN conjunct2, rule_format, OF e,
        of "\<lparr>cx = 3, cy = 0, cw = 27, ch = 20, region = []\<rparr>"] n
    by simp
  then show ?thesis using e n by blast
qed

subsection \<open>The batch\<close>

lemma sheets_loop_map:
  "sheets_loop answer_key sheets acc = acc @ map (process_sheet answer_key) sheets"
  by (induction sheets arbitrary: acc) simp_all

lemma score_omr_sheets_report:
  assumes "parse_answer_key key_file = Inr answer_key"
  shows "score_omr_sheets (Some sheets) (Some key_file) =
           Report (map (process_sheet answer_key) sheets)"
  using assms by (simp add: score_omr_sheets_def sheets_loop_map)

lemma find_and_sort_bubbles_length:
  assumes "filter_cnts cnts [] = Inr qs" "find_and_sort_bubbles cnts = Inr bubbles"
  shows "length bubbles = length qs"
proof -
  have "grid_order qs = Inr bubbles"
    using assms by (simp add: find_and_sort_bubbles_def)
  then show ?thesis using grid_order_mset mset_eq_length by blast
qed

lemma process_sheet_small:
  assumes "image s = Some (cnts, thresh)" "filter_cnts cnts [] = Inr qs" "length qs < 100"
  shows "process_sheet answer_key s = Warning (name s) (length qs)"
proof -
  have g: "grid_order qs = Inr (sort_key (\<lambda>c. (cx c, cy c)) qs)"
    using assms(3) by (simp add: grid_order_small)
  show ?thesis
    using assms by (simp add: process_sheet_def find_and_sort_bubbles_def g)
qed

lemma process_sheet_hundred:
  assumes "image s = Some (cnts, thresh)" "filter_cnts cnts [] = Inr qs" "length qs = 100"
  shows "process_sheet answer_key s =
           Scored (name s)
             (fst (score_sheet answer_key
                     (extract_student_answers (sort_key (\<lambda>c. (cx c, cy c)) qs) thresh)))
             (snd (score_sheet answer_key
                     (extract_student_answers (sort_key (\<lambda>c. (cx c, cy c)) qs) thresh)))"
proof -
  have g: "grid_order qs = Inr (sort_key (\<lambda>c. (cx c, cy c)) qs)"
    using assms(3) by (simp add: grid_order_small)
  show ?thesis
    using assms by (simp add: process_sheet_def find_and_sort_bubbles_def g Let_def split_beta)
qed

lemma process_sheet_zero_span:
  assumes "image s = Some (cnts, thresh)" "filter_cnts cnts [] = Inr qs" "length qs > 100"
    and "\<forall>c \<in> set qs. cx c = x"
  shows "process_sheet answer_key s = Failed (name s) ZeroDivisionError"
proof -
  have ne: "set (map cx qs) \<noteq> {}" using assms(3) by auto
  have "set (map cx qs) \<subseteq> {x}" using assms(4) by auto
  then have "set (map cx qs) = {} \<or> set (map cx qs) = {x}" by (rule subset_singletonD)
  with ne have "set (map cx qs) = {x}" by simp
  then have "Max (set (map cx qs)) = Min (set (map cx qs))" by simp
  then have g: "grid_order qs = Inl ZeroDivisionError"
    using assms(3) by (rule grid_order_zero_span [rotated])
  show ?thesis
    using assms(1,2) by (simp add: process_sheet_def find_and_sort_bubbles_def g)
qed

text \<open>
  Claim C7. A sheet whose accepted candidate count is below 100 (99, for example)
  yields an insufficient-candidates warning with that count and no score, and the
  sheets before and after it in the batch have their own outcomes; a sheet with
  exactly 100 accepted candidates goes on to mark selection and scoring and yields a
  score and its rows.
\<close>

theorem insufficient_candidates:
  assumes "parse_answer_key key_file = Inr answer_key"
      and "image s = Some (cnts, thresh)"
      and "filter_cnts cnts [] = Inr qs"
  shows "(length qs < 100 \<longrightarrow>
            process_sheet answer_key s = Warning (name s) (length qs) \<and>
            score_omr_sheets (Some (before @ s # after)) (Some key_file) =
              Report (map (process_sheet answer_key) before
                        @ Warning (name s) (length qs)
                        # map (process_sheet answer_key) after)) \<and>
         (length qs = 100 \<longrightarrow>
            (\<exists>score rows.
               score_sheet answer_key
                 (extract_student_answers (sort_key (\<lambda>c. (cx c, cy c)) qs) thresh)
                 = (score, rows) \<and>
               process_sheet answer_key s = Scored (name s) score rows \<and>
               score_omr_sheets (Some (before @ s # after)) (Some key_file) =
                 Report (map (process_sheet answer_key) before
                           @ Scored (name s) score rows
                           # map (process_sheet answer_key) after)))"
proof (intro conjI impI)
  assume l: "length qs < 100"
  show w: "process_sheet answer_key s = Warning (name s) (length qs)"
    by (rule process_sheet_small [OF assms(2,3) l])
  show "score_omr_sheets (Some (before @ s # after)) (Some key_file) =
              Report (map (process_sheet answer_key) before
                        @ Warning (name s) (length qs)
                        # map (process_sheet answer_key) after)"
    by (simp add: score_omr_sheets_report [OF assms(1)] w)
next
  assume l: "length qs = 100"
  let ?r = "score_sheet answer_key
                 (extract_student_answers (sort_key (\<lambda>c. (cx c, cy c)) qs) thresh)"
  have p: "process_sheet answer_key s = Scored (name s) (fst ?r) (snd ?r)"
    by (rule process_sheet_hundred [OF assms(2,3) l])
  have "score_omr_sheets (Some (before @ s # after)) (Some key_file) =
                 Report (map (process_sheet answer_key) before
                           @ Scored (name s) (fst ?r) (snd ?r)
                           # map (process_sheet answer_key) after)"
    by (simp add: score_omr_sheets_report [OF assms(1)] p)
  then show "\<exists>score rows.
               ?r = (score, rows) \<and>
               process_sheet answer_key s = Scored (name s) score rows \<and>
               score_omr_sheets (Some (before @ s # after)) (Some key_file) =
                 Report (map (process_sheet answer_key) before
                           @ Scored (name s) score rows
                           # map (process_sheet answer_key) after)"
    using p by (intro exI [of _ "fst ?r"] exI [of _ "snd ?r"]) simp
qed

text \<open>A sheet with 99 accepted candidates and one with 100.\<close>

theorem insufficient_candidates_witness:
  "process_sheet Map.empty
     \<lparr>name = ''a.png'',
      image = Some (replicate 99 \<lparr>cx = 0, cy = 0, cw = 20, ch = 20, region = []\<rparr>, \<lambda>p. True)\<rparr>
     = Warning ''a.png'' 99 \<and>
   (\<exists>score rows.
      process_sheet Map.empty
        \<lparr>name = ''b.png'',
         image = Some (replicate 100 \<lparr>cx = 0, cy = 0, cw = 20, ch = 20, region = []\<rparr>, \<lambda>p. True)\<rparr>
        = Scored ''b.png'' score rows)"
proof -
  let ?c = "\<lparr>cx = 0, cy = 0, cw = 20, ch = 20, region = []\<rparr>"
  have k: "parse_answer_key (Inr []) = Inr Map.empty"
    by (simp add: parse_answer_key_def)
  have f: "filter_cnts (replicate n ?c) [] = Inr (replicate n ?c)" for n
    using filter_cnts_acc [of "replicate n ?c" "[]"] by (simp add: aspect_ok_def)
  have a: "process_sheet Map.empty
     \<lparr>name = ''a.png'', image = Some (replicate 99 ?c, \<lambda>p. True)\<rparr> = Warning ''a.png'' 99"
    using insufficient_candidates [OF k _ f [of 99],
        of "\<lparr>name = ''a.png'', image = Some (replicate 99 ?c, \<lambda>p. True)\<rparr>" "\<lambda>p. True" "[]" "[]"]
    by simp
  have b: "\<exists>score rows. process_sheet Map.empty
     \<lparr>name = ''b.png'', image = Some (replicate 100 ?c, \<lambda>p. True)\<rparr> = Scored ''b.png'' score rows"
    using insufficient_candidates [OF k _ f [of 100],
        of "\<lparr>name = ''b.png'', image = Some (replicate 100 ?c, \<lambda>p. True)\<rparr>" "\<lambda>p. True" "[]" "[]"]
    by auto
  show ?thesis using a b by (rule conjI)
qed

text \<open>
  Claim C9. If more than 100 candidates are accepted on a sheet and all their
  bounding boxes have the same x-coordinate, the horizontal span is zero, the band
  computation \<open>get_col\<close> divides by the zero band width and raises, the handler of
  the sheet turns the exception into an error outcome in place of a score, and the
  other sheets of the batch have their own outcomes.
\<close>

theorem zero_span_failure:
  assumes "parse_answer_key key_file = Inr answer_key"
      and "image s = Some (cnts, thresh)"
      and "filter_cnts cnts [] = Inr qs"
      and "length qs > 100"
      and "\<forall>c \<in> set qs. cx c = x"
  shows "Max (set (map cx qs)) - Min (set (map cx qs)) = 0 \<and>
         get_col (Min (set (map cx qs)))
           (of_int (Max (set (map cx qs)) - Min (set (map cx qs))) / 5) x
           = Inl ZeroDivisionError \<and>
         find_and_sort_bubbles cnts = Inl ZeroDivisionError \<and>
         process_sheet answer_key s = Failed (name s) ZeroDivisionError \<and>
         score_omr_sheets (Some (before @ s # after)) (Some key_file) =
           Report (map (process_sheet answer_key) before
                     @ Failed (name s) ZeroDivisionError
                     # map (process_sheet answer_key) after)"
proof -
  have ne: "set (map cx qs) \<noteq> {}" using assms(4) by auto
  have "set (map cx qs) \<subseteq> {x}" using assms(5) by auto
  then have "set (map cx qs) = {} \<or> set (map cx qs) = {x}" by (rule subset_singletonD)
  with ne have sx: "set (map cx qs) = {x}" by simp
  then have z: "Max (set (map cx qs)) - Min (set (map cx qs)) = 0" by simp
  have eq: "Max (set (map cx qs)) = Min (set (map cx qs))" using z by simp
  have g: "get_col (Min (set (map cx qs)))
           (of_int (Max (set (map cx qs)) - Min (set (map cx qs))) / 5) x
           = Inl ZeroDivisionError"
    unfolding z by (simp add: get_col_def)
  have f: "find_and_sort_bubbles cnts = Inl ZeroDivisionError"
    using grid_order_zero_span [OF assms(4) eq] assms(3)
    by (simp add: find_and_sort_bubbles_def)
  have p: "process_sheet answer_key s = Failed (name s) ZeroDivisionError"
    by (rule process_sheet_zero_span [OF assms(2,3,4,5)])
  have b: "score_omr_sheets (Some (before @ s # after)) (Some key_file) =
           Report (map (process_sheet answer_key) before
                     @ Failed (name s) ZeroDivisionError
                     # map (process_sheet answer_key) after)"
    by (simp add: score_omr_sheets_report [OF assms(1)] p)
  show ?thesis using z g f p b by blast
qed

text \<open>
  A batch of two sheets: 101 candidates in one column, then a sheet without
  candidates, which still gets its warning.
\<close>

theorem zero_span_failure_witness:
  "score_omr_sheets
     (Some [\<lparr>name = ''a.png'',
             image = Some (replicate 101 \<lparr>cx = 7, cy = 0, cw = 20, ch = 20, region = []\<rparr>,
                           \<lambda>p. True)\<rparr>,
            \<lparr>name = ''b.png'', image = Some ([], \<lambda>p. True)\<rparr>])
     (Some (Inr []))
   = Report [Failed ''a.png'' ZeroDivisionError, Warning ''b.png'' 0]"
proof -
  let ?c = "\<lparr>cx = 7, cy = 0, cw = 20, ch = 20, region = []\<rparr>"
  let ?a = "\<lparr>name = ''a.png'', image = Some (replicate 101 ?c, \<lambda>p. True)\<rparr>"
  let ?b = "\<lparr>name = ''b.png'', image = Some ([], \<lambda>p. True)\<rparr>"
  have k: "parse_answer_key (Inr []) = Inr Map.empty"
    by (simp add: parse_answer_key_def)
  have f: "filter_cnts (replicate 101 ?c) [] = Inr (replicate 101 ?c)"
    using filter_cnts_acc [of "replicate 101 ?c" "[]"] by (simp add: aspect_ok_def)
  have i: "image ?a = Some (replicate 101 ?c, \<lambda>p. True)" by simp
  have l: "length (replicate 101 ?c) > 100" by simp
  have x: "\<forall>c \<in> set (replicate 101 ?c). cx c = 7" by simp
  have w: "process_sheet Map.empty ?b = Warning ''b.png'' 0"
    by (simp add: process_sheet_def find_and_sort_bubbles_def grid_order_def)
  from zero_span_failure [OF k i f l x, of "[]" "[?b]"]
  have "score_omr_sheets (Some [?a, ?b]) (Some (Inr [])) =
          Report [Failed ''a.png'' ZeroDivisionError, process_sheet Map.empty ?b]"
    by simp
  then show ?thesis by (simp only: w)
qed










subsection \<open>Answer Key Reader\<close>

lemma in_many: "(m, r) \<in> set (many cls s) \<longleftrightarrow> m @ r = s \<and> (\<forall>c \<in> set m. cls c)"
proof (induction s arbitrary: m)
  case Nil
  then show ?case by auto
next
  case (Cons a s)
  show ?case
  proof (cases m)
    case Nil
    then show ?thesis by auto
  next
    case (Cons b m')
    have "(b # m', r) \<in> set (many cls (a # s)) \<longleftrightarrow>
            cls a \<and> b = a \<and> (m', r) \<in> set (many cls s)"
      by force
    then show ?thesis
      unfolding Cons Cons.IH by auto
  qed
qed

lemma in_many1:
  "(m, r) \<in> set (many1 cls s) \<longleftrightarrow> m @ r = s \<and> m \<noteq> [] \<and> (\<forall>c \<in> set m. cls c)"
  by (auto simp: many1_def in_many)

lemma in_one: "(c, r) \<in> set (one cls s) \<longleftrightarrow> s = c # r \<and> cls c"
  by (cases s) auto


lemma in_bind_pair:
  "y \<in> set (concat (map (case_prod g) xs)) \<longleftrightarrow> (\<exists>a b. (a, b) \<in> set xs \<and> y \<in> set (g a b))"
  by (induction xs) auto

lemma in_image_pair:
  "y \<in> (\<lambda>x. case x of (a, b) \<Rightarrow> h a b) ` A \<longleftrightarrow> (\<exists>a b. (a, b) \<in> A \<and> y = h a b)"
  by (auto simp: image_iff split: prod.splits)

lemma in_match_at_nested:
  "(ds, l) \<in> set (match_at s) \<longleftrightarrow>
     (\<exists>r1 w1 r2 sep r3 w2 r4 r5.
        (ds, r1) \<in> set (many1 is_digit s) \<and> (w1, r2) \<in> set (many is_space r1) \<and>
        (sep, r3) \<in> set (one is_sep r2) \<and> (w2, r4) \<in> set (many is_space r3) \<and>
        (l, r5) \<in> set (one is_ad r4))"
  unfolding match_at_def in_bind_pair
  apply (simp add: in_image_pair)
  apply blast
  done


lemma in_match_at:
  "(ds, l) \<in> set (match_at s) \<longleftrightarrow>
     (\<exists>w1 sep w2 post.
        s = ds @ w1 @ [sep] @ w2 @ [l] @ post \<and> ds \<noteq> [] \<and> (\<forall>c \<in> set ds. is_digit c) \<and>
        (\<forall>c \<in> set w1. is_space c) \<and> is_sep sep \<and> (\<forall>c \<in> set w2. is_space c) \<and> is_ad l)"
proof
  assume "(ds, l) \<in> set (match_at s)"
  then obtain r1 w1 r2 sep r3 w2 r4 r5 where
    "ds @ r1 = s" "ds \<noteq> []" "\<forall>c \<in> set ds. is_digit c"
    "w1 @ r2 = r1" "\<forall>c \<in> set w1. is_space c"
    "r2 = sep # r3" "is_sep sep"
    "w2 @ r4 = r3" "\<forall>c \<in> set w2. is_space c"
    "r4 = l # r5" "is_ad l"
    unfolding in_match_at_nested in_many in_many1 in_one by blast
  then have "s = ds @ w1 @ [sep] @ w2 @ [l] @ r5 \<and> ds \<noteq> [] \<and> (\<forall>c \<in> set ds. is_digit c) \<and>
        (\<forall>c \<in> set w1. is_space c) \<and> is_sep sep \<and> (\<forall>c \<in> set w2. is_space c) \<and> is_ad l"
    by auto
  then show "\<exists>w1 sep w2 post.
        s = ds @ w1 @ [sep] @ w2 @ [l] @ post \<and> ds \<noteq> [] \<and> (\<forall>c \<in> set ds. is_digit c) \<and>
        (\<forall>c \<in> set w1. is_space c) \<and> is_sep sep \<and> (\<forall>c \<in> set w2. is_space c) \<and> is_ad l"
    by blast
next
  assume "\<exists>w1 sep w2 post.
        s = ds @ w1 @ [sep] @ w2 @ [l] @ post \<and> ds \<noteq> [] \<and> (\<forall>c \<in> set ds. is_digit c) \<and>
        (\<forall>c \<in> set w1. is_space c) \<and> is_sep sep \<and> (\<forall>c \<in> set w2. is_space c) \<and> is_ad l"
  then obtain w1 sep w2 post where d:
    "s = ds @ w1 @ [sep] @ w2 @ [l] @ post" "ds \<noteq> []" "\<forall>c \<in> set ds. is_digit c"
    "\<forall>c \<in> set w1. is_space c" "is_sep sep" "\<forall>c \<in> set w2. is_space c" "is_ad l"
    by blast
  have 1: "(ds, w1 @ [sep] @ w2 @ [l] @ post) \<in> set (many1 is_digit s)"
    using d by (simp add: in_many1)
  have 2: "(w1, [sep] @ w2 @ [l] @ post) \<in> set (many is_space (w1 @ [sep] @ w2 @ [l] @ post))"
    using d by (simp add: in_many)
  have 3: "(sep, w2 @ [l] @ post) \<in> set (one is_sep ([sep] @ w2 @ [l] @ post))"
    using d by (simp add: in_one)
  have 4: "(w2, [l] @ post) \<in> set (many is_space (w2 @ [l] @ post))"
    using d by (simp add: in_many)
  have 5: "(l, post) \<in> set (one is_ad ([l] @ post))"
    using d by (simp add: in_one)
  show "(ds, l) \<in> set (match_at s)"
    unfolding in_match_at_nested using 1 2 3 4 5 by blast
qed

lemma digit_not_sep: "is_digit c \<Longrightarrow> \<not> is_sep c"
  by (auto simp: is_digit_def is_sep_def is_space_def)

lemma ad_not_sep: "is_ad c \<Longrightarrow> \<not> is_sep c"
  by (auto simp: is_ad_def is_sep_def is_space_def)

lemma space_sep: "is_space c \<Longrightarrow> is_sep c"
  by (simp add: is_sep_def)

text \<open>All matches at one position have the same groups.\<close>

lemma match_at_groups:
  assumes "(ds, l) \<in> set (match_at s)"
  shows "ds = takeWhile is_digit s \<and>
         (\<exists>post. dropWhile is_sep (dropWhile is_digit s) = l # post)"
proof -
  from assms obtain w1 sep w2 post where d:
    "s = ds @ w1 @ [sep] @ w2 @ [l] @ post" "ds \<noteq> []" "\<forall>c \<in> set ds. is_digit c"
    "\<forall>c \<in> set w1. is_space c" "is_sep sep" "\<forall>c \<in> set w2. is_space c" "is_ad l"
    unfolding in_match_at by blast
  let ?seps = "w1 @ [sep] @ w2"
  have seps: "\<forall>c \<in> set ?seps. is_sep c" using d(4,5,6) space_sep by auto
  have ne: "?seps \<noteq> []" by simp
  then obtain y ys where y: "?seps = y # ys" by (cases ?seps) auto
  then have "is_sep y" using seps by (metis list.set_intros(1))
  then have nd: "\<not> is_digit y" using digit_not_sep by blast
  have s1: "s = ds @ y # (ys @ [l] @ post)" using d(1) y by simp
  have t: "takeWhile is_digit s = ds"
    unfolding s1 using d(3) nd by (simp add: takeWhile_append2)
  have dd: "dropWhile is_digit s = ?seps @ l # post"
    unfolding s1 using d(3) nd y by (simp add: dropWhile_append2)
  have "dropWhile is_sep (?seps @ l # post) = l # post"
    using seps ad_not_sep [OF d(7)] by (simp add: dropWhile_append2)
  then show ?thesis using t dd by simp
qed

lemma match_at_unique:
  assumes "(ds, l) \<in> set (match_at s)" "(ds', l') \<in> set (match_at s)"
  shows "ds' = ds \<and> l' = l"
  using match_at_groups [OF assms(1)] match_at_groups [OF assms(2)] by auto

lemma match_at_hd:
  assumes "(ds, l) \<in> set (match_at s)"
  shows "\<exists>ms. match_at s = (ds, l) # ms"
proof -
  from assms obtain m ms where m: "match_at s = m # ms" by (cases "match_at s") auto
  then have "m \<in> set (match_at s)" by simp
  then have "m = (ds, l)" using match_at_unique [OF assms, of "fst m" "snd m"] by (cases m) auto
  then show ?thesis using m by simp
qed

lemma match_at_Nil [simp]: "match_at [] = []"
  by (simp add: match_at_def many1_def)

lemma re_search_None:
  "re_search t = None \<longleftrightarrow> (\<forall>pre s. t = pre @ s \<longrightarrow> match_at s = [])"
proof (induction t)
  case Nil
  then show ?case by simp
next
  case (Cons c cs)
  have split: "(\<forall>pre s. c # cs = pre @ s \<longrightarrow> match_at s = []) \<longleftrightarrow>
        match_at (c # cs) = [] \<and> (\<forall>pre s. cs = pre @ s \<longrightarrow> match_at s = [])"
    by (auto simp: Cons_eq_append_conv)
  show ?case
    unfolding split Cons.IH [symmetric] by (cases "match_at (c # cs)") simp_all
qed

lemma re_search_Some:
  assumes "re_search t = Some m"
  shows "\<exists>pre s. t = pre @ s \<and> m \<in> set (match_at s)"
  using assms
proof (induction t)
  case Nil
  then show ?case by simp
next
  case (Cons c cs)
  show ?case
  proof (cases "match_at (c # cs)")
    case Nil
    then have "re_search cs = Some m" using Cons.prems by simp
    then obtain pre s where "cs = pre @ s" "m \<in> set (match_at s)"
      using Cons.IH by blast
    then have "c # cs = (c # pre) @ s \<and> m \<in> set (match_at s)" by simp
    then show ?thesis by blast
  next
    case (Cons m' ms)
    then have "m = m'" using Cons.prems by simp
    then have "c # cs = [] @ (c # cs) \<and> m \<in> set (match_at (c # cs))" using Cons by simp
    then show ?thesis by blast
  qed
qed

lemma re_search_here:
  assumes "(ds, l) \<in> set (match_at t)"
  shows "re_search t = Some (ds, l)"
proof -
  obtain ms where m: "match_at t = (ds, l) # ms" using match_at_hd [OF assms] by blast
  then have "t \<noteq> []" by auto
  then obtain c cs where "t = c # cs" by (cases t) auto
  then show ?thesis using m by simp
qed

lemma upper_ad: "is_ad l \<Longrightarrow> upper l \<in> {''A'', ''B'', ''C'', ''D''}"
proof -
  have u: "upper CHR ''a'' = ''A''" "upper CHR ''b'' = ''B''" "upper CHR ''c'' = ''C''"
    "upper CHR ''d'' = ''D''" "upper CHR ''A'' = ''A''" "upper CHR ''B'' = ''B''"
    "upper CHR ''C'' = ''C''" "upper CHR ''D'' = ''D''"
    by code_simp+
  assume "is_ad l"
  then have "l \<in> {CHR ''a'', CHR ''b'', CHR ''c'', CHR ''d'', CHR ''A'', CHR ''B'', CHR ''C'', CHR ''D''}"
    by (simp add: is_ad_def)
  then show ?thesis using u by auto
qed

lemma re_search_leftmost:
  assumes "re_search t = Some m"
  shows "\<exists>pre s. t = pre @ s \<and> m \<in> set (match_at s) \<and>
           (\<forall>pre' s'. t = pre' @ s' \<and> length pre' < length pre \<longrightarrow> match_at s' = [])"
  using assms
proof (induction t)
  case Nil
  then show ?case by simp
next
  case (Cons c cs)
  show ?case
  proof (cases "match_at (c # cs)")
    case Nil
    then have "re_search cs = Some m" using Cons.prems by simp
    then obtain pre s where p: "cs = pre @ s" "m \<in> set (match_at s)"
      "\<forall>pre' s'. cs = pre' @ s' \<and> length pre' < length pre \<longrightarrow> match_at s' = []"
      using Cons.IH by blast
    have "match_at s' = []" if "c # cs = pre' @ s'" "length pre' < length (c # pre)" for pre' s'
    proof (cases pre')
      case Nil
      then show ?thesis using that(1) \<open>match_at (c # cs) = []\<close> by simp
    next
      case (Cons a p')
      then have "cs = p' @ s'" "length p' < length pre" using that by auto
      then show ?thesis using p(3) by blast
    qed
    then have "c # cs = (c # pre) @ s \<and> m \<in> set (match_at s) \<and>
           (\<forall>pre' s'. c # cs = pre' @ s' \<and> length pre' < length (c # pre) \<longrightarrow> match_at s' = [])"
      using p(1,2) by auto
    then show ?thesis by blast
  next
    case (Cons m' ms)
    then have "m = m'" using Cons.prems by simp
    then have "c # cs = [] @ (c # cs) \<and> m \<in> set (match_at (c # cs)) \<and>
           (\<forall>pre' s'. c # cs = pre' @ s' \<and> length pre' < length ([] :: string) \<longrightarrow> match_at s' = [])"
      using Cons by simp
    then show ?thesis by blast
  qed
qed

lemma re_search_matches:
  "re_search text \<noteq> None \<longleftrightarrow>
     (\<exists>pre ds w1 sep w2 l post.
        text = pre @ ds @ w1 @ [sep] @ w2 @ [l] @ post \<and> ds \<noteq> [] \<and>
        (\<forall>c \<in> set ds. is_digit c) \<and> (\<forall>c \<in> set w1. is_space c) \<and> is_sep sep \<and>
        (\<forall>c \<in> set w2. is_space c) \<and> is_ad l)"
proof
  assume "re_search text \<noteq> None"
  then obtain ds l where "re_search text = Some (ds, l)" by auto
  then obtain pre s where "text = pre @ s" "(ds, l) \<in> set (match_at s)"
    using re_search_Some by blast
  then show "\<exists>pre ds w1 sep w2 l post.
        text = pre @ ds @ w1 @ [sep] @ w2 @ [l] @ post \<and> ds \<noteq> [] \<and>
        (\<forall>c \<in> set ds. is_digit c) \<and> (\<forall>c \<in> set w1. is_space c) \<and> is_sep sep \<and>
        (\<forall>c \<in> set w2. is_space c) \<and> is_ad l"
    unfolding in_match_at by blast
next
  assume "\<exists>pre ds w1 sep w2 l post.
        text = pre @ ds @ w1 @ [sep] @ w2 @ [l] @ post \<and> ds \<noteq> [] \<and>
        (\<forall>c \<in> set ds. is_digit c) \<and> (\<forall>c \<in> set w1. is_space c) \<and> is_sep sep \<and>
        (\<forall>c \<in> set w2. is_space c) \<and> is_ad l"
  then obtain pre ds w1 sep w2 l post where d:
    "text = pre @ (ds @ w1 @ [sep] @ w2 @ [l] @ post)" "ds \<noteq> []"
    "\<forall>c \<in> set ds. is_digit c" "\<forall>c \<in> set w1. is_space c" "is_sep sep"
    "\<forall>c \<in> set w2. is_space c" "is_ad l"
    by auto
  have "(ds, l) \<in> set (match_at (ds @ w1 @ [sep] @ w2 @ [l] @ post))"
    unfolding in_match_at using d(2-) by blast
  then have "match_at (ds @ w1 @ [sep] @ w2 @ [l] @ post) \<noteq> []" by auto
  then show "re_search text \<noteq> None"
    unfolding re_search_None using d(1) by blast
qed

lemma re_search_groups:
  assumes "re_search text = Some (ds, l)"
  shows "ds \<noteq> [] \<and> (\<forall>c \<in> set ds. is_digit c) \<and> upper l \<in> {''A'', ''B'', ''C'', ''D''} \<and>
         (\<exists>pre w1 sep w2 post.
            text = pre @ ds @ w1 @ [sep] @ w2 @ [l] @ post \<and>
            (\<forall>c \<in> set w1. is_space c) \<and> is_sep sep \<and> (\<forall>c \<in> set w2. is_space c) \<and>
            (\<forall>pre' s'. text = pre' @ s' \<and> length pre' < length pre \<longrightarrow> match_at s' = []))"
proof -
  from re_search_leftmost [OF assms] obtain pre s where p:
    "text = pre @ s" "(ds, l) \<in> set (match_at s)"
    "\<forall>pre' s'. text = pre' @ s' \<and> length pre' < length pre \<longrightarrow> match_at s' = []"
    by blast
  from p(2) obtain w1 sep w2 post where d:
    "s = ds @ w1 @ [sep] @ w2 @ [l] @ post" "ds \<noteq> []" "\<forall>c \<in> set ds. is_digit c"
    "\<forall>c \<in> set w1. is_space c" "is_sep sep" "\<forall>c \<in> set w2. is_space c" "is_ad l"
    unfolding in_match_at by blast
  have "text = pre @ ds @ w1 @ [sep] @ w2 @ [l] @ post \<and>
            (\<forall>c \<in> set w1. is_space c) \<and> is_sep sep \<and> (\<forall>c \<in> set w2. is_space c) \<and>
            (\<forall>pre' s'. text = pre' @ s' \<and> length pre' < length pre \<longrightarrow> match_at s' = [])"
    using p(1,3) d by simp
  then have "\<exists>pre w1 sep w2 post.
            text = pre @ ds @ w1 @ [sep] @ w2 @ [l] @ post \<and>
            (\<forall>c \<in> set w1. is_space c) \<and> is_sep sep \<and> (\<forall>c \<in> set w2. is_space c) \<and>
            (\<forall>pre' s'. text = pre' @ s' \<and> length pre' < length pre \<longrightarrow> match_at s' = [])"
    by blast
  then show ?thesis using d(2,3) upper_ad [OF d(7)] by blast
qed

lemma entry_shape_search:
  assumes "entry_shape text"
  shows "re_search text = Some (takeWhile is_digit text, last text)"
proof -
  from assms obtain sep l where e:
    "takeWhile is_digit text \<noteq> []" "dropWhile is_digit text = [sep, l]"
    "sep \<in> set '' -.''" "is_ad l"
    by (auto simp: entry_shape_def split: list.splits)
  let ?ds = "takeWhile is_digit text"
  have t: "text = ?ds @ [sep, l]"
    using takeWhile_dropWhile_id [of is_digit "text"] e(2) by simp
  have la: "last text = l" by (subst t) simp
  have sp: "is_sep sep" using e(3) by (auto simp: is_sep_def is_space_def)
  have dg: "\<forall>c \<in> set ?ds. is_digit c" by (auto dest: set_takeWhileD)
  have "text = ?ds @ [] @ [sep] @ [] @ [l] @ [] \<and> ?ds \<noteq> [] \<and> (\<forall>c \<in> set ?ds. is_digit c) \<and>
        (\<forall>c \<in> set ([] :: string). is_space c) \<and> is_sep sep \<and>
        (\<forall>c \<in> set ([] :: string). is_space c) \<and> is_ad l"
    using t e(1,4) sp dg by simp
  then have "(?ds, l) \<in> set (match_at text)"
    unfolding in_match_at by blast
  then show ?thesis unfolding la by (rule re_search_here)
qed

lemma cell_step_entry:
  assumes "cell_step item answers = Inr answers'"
  shows "answers' = answers ++ map_of (cell_entry item)"
  using assms
  by (auto simp: cell_step_def cell_entry_def py_int_str_def
           split: option.splits sum.splits if_splits)

lemma rev_cell_entry: "rev (cell_entry item) = cell_entry item"
  by (auto simp: cell_entry_def split: option.splits)

lemma cells_loop_entries:
  assumes "cells_loop cells answers = Inr answers'"
  shows "answers' = answers ++ map_of (rev (entries cells))"
  using assms
proof (induction cells arbitrary: answers)
  case Nil
  then show ?case by (simp add: entries_def)
next
  case (Cons item rest)
  from Cons.prems obtain a where a: "cell_step item answers = Inr a"
    and r: "cells_loop rest a = Inr answers'"
    by (auto split: sum.splits)
  have "answers' = (answers ++ map_of (cell_entry item)) ++ map_of (rev (entries rest))"
    using Cons.IH [OF r] cell_step_entry [OF a] by simp
  also have "\<dots> = answers ++ map_of (rev (entries (item # rest)))"
    by (simp add: entries_def rev_cell_entry)
  finally show ?case .
qed

lemma cell_step_total:
  assumes "\<forall>t ds l. item = Some t \<and> re_search t = Some (ds, l) \<longrightarrow> length ds \<le> 4300"
  shows "\<exists>a. cell_step item answers = Inr a"
  using assms
  by (auto simp: cell_step_def py_int_str_def split: option.splits)

lemma cells_loop_total:
  assumes "\<forall>t ds l. Some t \<in> set cells \<and> re_search t = Some (ds, l) \<longrightarrow> length ds \<le> 4300"
  shows "\<exists>a. cells_loop cells answers = Inr a"
  using assms
proof (induction cells arbitrary: answers)
  case Nil
  then show ?case by simp
next
  case (Cons item rest)
  have "\<forall>t ds l. item = Some t \<and> re_search t = Some (ds, l) \<longrightarrow> length ds \<le> 4300"
    using Cons.prems by auto
  then obtain a where a: "cell_step item answers = Inr a"
    using cell_step_total by blast
  have "\<forall>t ds l. Some t \<in> set rest \<and> re_search t = Some (ds, l) \<longrightarrow> length ds \<le> 4300"
    using Cons.prems by auto
  then obtain b where "cells_loop rest a = Inr b" using Cons.IH by blast
  then show ?case using a by simp
qed

lemma parse_answer_key_entries:
  assumes "parse_answer_key (Inr cells) = Inr answers"
  shows "answers = map_of (rev (entries cells))"
proof -
  from assms have "cells_loop cells Map.empty = Inr answers"
    by (auto simp: parse_answer_key_def split: sum.splits)
  then show ?thesis using cells_loop_entries by fastforce
qed

lemma parse_answer_key_total:
  assumes "\<forall>t ds l. Some t \<in> set cells \<and> re_search t = Some (ds, l) \<longrightarrow> length ds \<le> 4300"
  shows "parse_answer_key (Inr cells) = Inr (map_of (rev (entries cells)))"
proof -
  obtain a where a: "cells_loop cells Map.empty = Inr a"
    using cells_loop_total [OF assms] by blast
  then have "parse_answer_key (Inr cells) = Inr a" by (simp add: parse_answer_key_def)
  then show ?thesis using parse_answer_key_entries by blast
qed

lemma cell_step_overflow:
  assumes "re_search t = Some (ds, l)" "length ds > 4300"
  shows "\<exists>e. cell_step (Some t) answers = Inl e"
  using assms by (simp add: cell_step_def py_int_str_def)

lemma parse_single:
  assumes "re_search t = Some (ds, l)"
  shows "parse_answer_key (Inr (cells @ [Some t])) = Inr answers \<Longrightarrow>
           answers (int_of_digits ds) = Some (upper l)"
proof -
  assume "parse_answer_key (Inr (cells @ [Some t])) = Inr answers"
  then have "answers = map_of (rev (entries (cells @ [Some t])))"
    by (rule parse_answer_key_entries)
  also have "entries (cells @ [Some t]) = entries cells @ [(int_of_digits ds, upper l)]"
    using assms by (simp add: entries_def cell_entry_def)
  finally show ?thesis by simp
qed

lemma reader_examples:
  "re_search ''37-B'' = Some (''37'', CHR ''B'')"
  "re_search ''37 b'' = Some (''37'', CHR ''b'')"
  "re_search ''37.B'' = Some (''37'', CHR ''B'')"
  "re_search ''37 c'' = Some (''37'', CHR ''c'')"
  "re_search ''notanentry'' = None"
  "re_search ''Q37-Banana'' = Some (''37'', CHR ''B'')"
  "int_of_digits ''37'' = 37"
  "upper CHR ''B'' = ''B''" "upper CHR ''b'' = ''B''" "upper CHR ''c'' = ''C''"
  "entry_shape ''37-B''" "entry_shape ''37 b''" "entry_shape ''37.B''"
  "\<not> entry_shape ''Q37-Banana''" "\<not> entry_shape ''notanentry''"
  by code_simp+


lemma parse_one_cell:
  assumes "re_search t = Some (ds, l)" "length ds \<le> 4300"
  shows "cell_step (Some t) answers = Inr (answers(int_of_digits ds \<mapsto> upper l))"
  using assms by (simp add: cell_step_def py_int_str_def)

text \<open>
  Claim C3 (amended). For every readable answer-key source, a cell has a match, and
  so yields an entry, exactly when its text contains somewhere a run of digits,
  optional whitespace, one separator (a hyphen, a period or a whitespace character),
  optional whitespace and a letter \<open>a\<close> to \<open>d\<close> in either case. The entry maps the number
  written by the digits of the leftmost match to that letter in upper case, provided
  the digit run has at most 4300 digits. In particular a cell that consists of a
  leading integer, one separator (space, hyphen or period) and a trailing single
  letter yields the entry of that integer and letter. Cells without a match
  contribute nothing. The key is the map of the entries in cell order, a later entry
  replacing an earlier one with the same question number. The cells \<open>37-B\<close>,
  \<open>37 b\<close> and \<open>37.B\<close> each yield \<open>{37: B}\<close>, and \<open>notanentry\<close> yields no entry.
\<close>

theorem answer_key_reader:
  "(\<forall>text. re_search text \<noteq> None \<longleftrightarrow>
      (\<exists>pre ds w1 sep w2 l post.
         text = pre @ ds @ w1 @ [sep] @ w2 @ [l] @ post \<and> ds \<noteq> [] \<and>
         (\<forall>c \<in> set ds. is_digit c) \<and> (\<forall>c \<in> set w1. is_space c) \<and> is_sep sep \<and>
         (\<forall>c \<in> set w2. is_space c) \<and> is_ad l)) \<and>
   (\<forall>text ds l. re_search text = Some (ds, l) \<longrightarrow>
      ds \<noteq> [] \<and> (\<forall>c \<in> set ds. is_digit c) \<and> upper l \<in> {''A'', ''B'', ''C'', ''D''} \<and>
      (\<exists>pre w1 sep w2 post.
         text = pre @ ds @ w1 @ [sep] @ w2 @ [l] @ post \<and>
         (\<forall>c \<in> set w1. is_space c) \<and> is_sep sep \<and> (\<forall>c \<in> set w2. is_space c) \<and>
         (\<forall>pre' s'. text = pre' @ s' \<and> length pre' < length pre \<longrightarrow> match_at s' = []))) \<and>
   (\<forall>text. entry_shape text \<longrightarrow>
      re_search text = Some (takeWhile is_digit text, last text)) \<and>
   (\<forall>text answers. re_search text = None \<longrightarrow> cell_step (Some text) answers = Inr answers) \<and>
   (\<forall>text ds l answers. re_search text = Some (ds, l) \<and> length ds \<le> 4300 \<longrightarrow>
      cell_step (Some text) answers = Inr (answers(int_of_digits ds \<mapsto> upper l))) \<and>
   (\<forall>cells.
      (\<forall>t ds l. Some t \<in> set cells \<and> re_search t = Some (ds, l) \<longrightarrow> length ds \<le> 4300) \<longrightarrow>
      parse_answer_key (Inr cells) = Inr (map_of (rev (entries cells)))) \<and>
   (\<forall>cells answers. parse_answer_key (Inr cells) = Inr answers \<longrightarrow>
      answers = map_of (rev (entries cells))) \<and>
   (\<forall>cells t ds l answers.
      re_search t = Some (ds, l) \<and> parse_answer_key (Inr (cells @ [Some t])) = Inr answers \<longrightarrow>
      answers (int_of_digits ds) = Some (upper l)) \<and>
   parse_answer_key (Inr [Some ''37-B'']) = Inr [37 \<mapsto> ''B''] \<and>
   parse_answer_key (Inr [Some ''37 b'']) = Inr [37 \<mapsto> ''B''] \<and>
   parse_answer_key (Inr [Some ''37.B'']) = Inr [37 \<mapsto> ''B''] \<and>
   parse_answer_key (Inr [Some ''notanentry'']) = Inr Map.empty \<and>
   parse_answer_key (Inr [Some ''37-B'', Some ''37 c'']) = Inr [37 \<mapsto> ''C'']"
proof (intro conjI allI impI)
  show "re_search text \<noteq> None \<longleftrightarrow>
      (\<exists>pre ds w1 sep w2 l post.
         text = pre @ ds @ w1 @ [sep] @ w2 @ [l] @ post \<and> ds \<noteq> [] \<and>
         (\<forall>c \<in> set ds. is_digit c) \<and> (\<forall>c \<in> set w1. is_space c) \<and> is_sep sep \<and>
         (\<forall>c \<in> set w2. is_space c) \<and> is_ad l)" for "text"
    by (rule re_search_matches)
next
  fix "text" ds l assume a: "re_search text = Some (ds, l)"
  note g = re_search_groups [OF a]
  show "ds \<noteq> []" using g by (rule conjunct1)
  show "upper l \<in> {''A'', ''B'', ''C'', ''D''}" using g by blast
  show "\<exists>pre w1 sep w2 post.
         text = pre @ ds @ w1 @ [sep] @ w2 @ [l] @ post \<and>
         (\<forall>c \<in> set w1. is_space c) \<and> is_sep sep \<and> (\<forall>c \<in> set w2. is_space c) \<and>
         (\<forall>pre' s'. text = pre' @ s' \<and> length pre' < length pre \<longrightarrow> match_at s' = [])"
    using g by (elim conjE)
  show "\<forall>c \<in> set ds. is_digit c" using g by (elim conjE)
next
  show "re_search text = Some (takeWhile is_digit text, last text)" if "entry_shape text" for "text"
    using that by (rule entry_shape_search)
next
  show "cell_step (Some text) answers = Inr answers" if "re_search text = None" for "text" answers
    using that by (simp add: cell_step_def)
next
  show "cell_step (Some text) answers = Inr (answers(int_of_digits ds \<mapsto> upper l))"
    if "re_search text = Some (ds, l) \<and> length ds \<le> 4300" for "text" ds l answers
    using that parse_one_cell by blast
next
  show "parse_answer_key (Inr cells) = Inr (map_of (rev (entries cells)))"
    if "\<forall>t ds l. Some t \<in> set cells \<and> re_search t = Some (ds, l) \<longrightarrow> length ds \<le> 4300"
    for cells
    using that by (rule parse_answer_key_total)
next
  show "answers = map_of (rev (entries cells))"
    if "parse_answer_key (Inr cells) = Inr answers" for cells answers
    using that by (rule parse_answer_key_entries)
next
  show "answers (int_of_digits ds) = Some (upper l)"
    if "re_search t = Some (ds, l) \<and> parse_answer_key (Inr (cells @ [Some t])) = Inr answers"
    for cells t ds l answers
    using that parse_single by blast
next
  show "parse_answer_key (Inr [Some ''37-B'']) = Inr [37 \<mapsto> ''B'']"
    by (simp add: parse_answer_key_def cell_step_def py_int_str_def reader_examples
          del: re_search.simps)
  show "parse_answer_key (Inr [Some ''37 b'']) = Inr [37 \<mapsto> ''B'']"
    by (simp add: parse_answer_key_def cell_step_def py_int_str_def reader_examples
          del: re_search.simps)
  show "parse_answer_key (Inr [Some ''37.B'']) = Inr [37 \<mapsto> ''B'']"
    by (simp add: parse_answer_key_def cell_step_def py_int_str_def reader_examples
          del: re_search.simps)
  show "parse_answer_key (Inr [Some ''notanentry'']) = Inr Map.empty"
    by (simp add: parse_answer_key_def cell_step_def reader_examples del: re_search.simps)
  show "parse_answer_key (Inr [Some ''37-B'', Some ''37 c'']) = Inr [37 \<mapsto> ''C'']"
    by (simp add: parse_answer_key_def cell_step_def py_int_str_def reader_examples
          del: re_search.simps)
qed

text \<open>
  An entry does not need a cell that consists of a leading integer, a separator and a
  trailing letter, because the search is not anchored: the cell \<open>Q37-Banana\<close> has
  neither a leading integer nor a trailing single letter, and yields \<open>{37: B}\<close>.
\<close>

theorem answer_key_reader_counterexample:
  "\<not> entry_shape ''Q37-Banana'' \<and>
   parse_answer_key (Inr [Some ''Q37-Banana'']) = Inr [37 \<mapsto> ''B'']"
  by (simp add: parse_answer_key_def cell_step_def py_int_str_def reader_examples
          del: re_search.simps)

text \<open>
  A cell of the stated shape, and a key file with a duplicate question number, an
  empty cell and a malformed one.
\<close>

theorem answer_key_reader_witness:
  "entry_shape ''37 b'' \<and>
   re_search ''37 b'' = Some (''37'', CHR ''b'') \<and>
   parse_answer_key (Inr [Some ''37-B'', None, Some ''notanentry'', Some ''37 c''])
     = Inr (map_of [(37, ''C''), (37, ''B'')])"
proof -
  note t = answer_key_reader
  have e: "entry_shape ''37 b''" by (rule reader_examples)
  have tw: "takeWhile is_digit ''37 b'' = ''37''" by code_simp
  have la: "last ''37 b'' = CHR ''b''" by code_simp
  have "re_search ''37 b'' = Some (takeWhile is_digit ''37 b'', last ''37 b'')"
    using t e by blast
  then have r: "re_search ''37 b'' = Some (''37'', CHR ''b'')"
    by (simp only: tw la)
  have h: "\<forall>t ds l. Some t \<in> set [Some ''37-B'', None, Some ''notanentry'', Some ''37 c'']
             \<and> re_search t = Some (ds, l) \<longrightarrow> length ds \<le> 4300"
    by (auto simp: reader_examples simp del: re_search.simps)
  have en: "entries [Some ''37-B'', None, Some ''notanentry'', Some ''37 c'']
              = [(37, ''B''), (37, ''C'')]"
    by (simp add: entries_def cell_entry_def reader_examples del: re_search.simps)
  have "parse_answer_key (Inr [Some ''37-B'', None, Some ''notanentry'', Some ''37 c''])
          = Inr (map_of (rev (entries [Some ''37-B'', None, Some ''notanentry'', Some ''37 c''])))"
    using t h by blast
  then have p: "parse_answer_key (Inr [Some ''37-B'', None, Some ''notanentry'', Some ''37 c''])
     = Inr (map_of [(37, ''C''), (37, ''B'')])"
    by (simp only: en rev.simps append.simps)
  show ?thesis using e r p by blast
qed

end
